theory Spec2Isabelle
  imports Complex_Main "HOL-Library.Word" "HOL-Library.Sublist"
begin

unbundle bit_operations_syntax

section \<open>Exceptions and bytes\<close>

text \<open>
  The Python exceptions that the modelled functions can raise. \<open>PacketError\<close> is the
  decoder's own exception class (data_parser.py); \<open>ValueError\<close> and \<open>IndexError\<close> are
  the built-in ones raised by out-of-range indexing, negative shift counts, the ring
  buffer's shape check and numpy's column assignment.
\<close>

datatype error = PacketError | ValueError | IndexError

type_synonym byte = "8 word"

text \<open>Python's \<open>xs[i]\<close> for a non-negative index: IndexError when out of range.\<close>

definition getitem :: "'a list \<Rightarrow> nat \<Rightarrow> error + 'a" where
  "getitem xs i = (if i < length xs then Inr (xs ! i) else Inl IndexError)"

section \<open>data_parser.py\<close>

definition HEADER :: "byte list" where
  "HEADER = [0xD2, 0xD2, 0xD2]"

definition PAYLOAD_LENGTH :: nat where
  "PAYLOAD_LENGTH = 29"

text \<open>
  The two dataclasses. \<open>channels_uv\<close>, \<open>gyro_rads\<close> and \<open>accel_mss\<close> are lists of Python
  floats; they are modelled as reals. \<open>float(v)\<close> is exact for the 24-bit integers the
  decoder produces; the two scale multiplications of the IMU branch are taken over the
  reals (their floating-point rounding is not represented).
\<close>

datatype sample =
    EmgSample (sequence: int) (channels_uv: "real list")
  | ImuSample (sequence: int) (gyro_rads: "real list") (accel_mss: "real list")
      (remainder: "int list")

text \<open>The \<open>for byte in bytes_seq\<close> loop of \<open>_combine_signed\<close>, on Python's unbounded ints.\<close>

fun combine_loop :: "int \<Rightarrow> int list \<Rightarrow> int" where
  "combine_loop acc [] = acc"
| "combine_loop acc (b # rest) = combine_loop (push_bit 8 acc OR b) rest"

text \<open>
  \<open>_combine_signed(bytes_seq, bits)\<close>. A shift by a negative count raises ValueError in
  Python, so \<open>1 << (bits - 1)\<close> is guarded.
\<close>

definition combine_signed :: "int list \<Rightarrow> int \<Rightarrow> error + int" where
  "combine_signed bytes_seq bits =
     (let v = combine_loop 0 bytes_seq in
      if bits - 1 < 0 then Inl ValueError
      else
        let sign_bit = push_bit (nat (bits - 1)) (1 :: int) in
        Inr (if v AND sign_bit \<noteq> 0 then v - push_bit (nat bits) 1 else v))"

text \<open>
  The EMG loop: \<open>for offset in range(0, len(payload), 3)\<close> takes \<open>payload[offset:offset+3]\<close>
  and stops at the first chunk shorter than 3 bytes.
\<close>

fun emg_loop :: "byte list \<Rightarrow> error + real list" where
  "emg_loop (a # b # c # rest) =
     (case combine_signed [uint a, uint b, uint c] 24 of
        Inl e \<Rightarrow> Inl e
      | Inr v \<Rightarrow>
          (case emg_loop rest of
             Inl e \<Rightarrow> Inl e
           | Inr channels \<Rightarrow> Inr (real_of_int v # channels)))"
| "emg_loop _ = Inr []"

text \<open>The IMU loop, in steps of 2 bytes.\<close>

fun imu_loop :: "byte list \<Rightarrow> error + int list" where
  "imu_loop (a # b # rest) =
     (case combine_signed [uint a, uint b] 16 of
        Inl e \<Rightarrow> Inl e
      | Inr v \<Rightarrow>
          (case imu_loop rest of
             Inl e \<Rightarrow> Inl e
           | Inr decoded \<Rightarrow> Inr (v # decoded)))"
| "imu_loop _ = Inr []"

definition parse_packet :: "byte list \<Rightarrow> error + sample" where
  "parse_packet raw =
     (if length raw \<noteq> PAYLOAD_LENGTH then Inl PacketError
      else if \<not> prefix HEADER raw then Inl PacketError
      else
        case getitem raw 3 of
          Inl e \<Rightarrow> Inl e
        | Inr packet_type \<Rightarrow>
            (case getitem raw 4 of
               Inl e \<Rightarrow> Inl e
             | Inr seq_byte \<Rightarrow>
                 (let payload = drop 5 raw in
                  if packet_type = 0xAA then
                    (case emg_loop payload of
                       Inl e \<Rightarrow> Inl e
                     | Inr channels \<Rightarrow> Inr (EmgSample (uint seq_byte) channels))
                  else if packet_type = 0xBB then
                    (case imu_loop payload of
                       Inl e \<Rightarrow> Inl e
                     | Inr decoded \<Rightarrow>
                         Inr (ImuSample (uint seq_byte)
                                (map (\<lambda>v. real_of_int v * 0.0012) (take 3 decoded))
                                (map (\<lambda>v. real_of_int v * 0.0005978) (take 3 (drop 3 decoded)))
                                (drop 6 decoded)))
                  else Inl PacketError)))"

text \<open>
  The decoding rule in the words of the specification, to be compared with
  \<open>combine_signed\<close>: the bytes are accumulated most-significant-first into an unsigned
  integer, and \<open>2 ^ bits\<close> is subtracted when the top bit (bit \<open>bits - 1\<close>) is set.
\<close>

definition spec_be_unsigned :: "byte list \<Rightarrow> int" where
  "spec_be_unsigned bs = foldl (\<lambda>v b. v * 256 + uint b) 0 bs"

definition spec_twos_complement :: "nat \<Rightarrow> int \<Rightarrow> int" where
  "spec_twos_complement w v = (if bit v (w - 1) then v - 2 ^ w else v)"

section \<open>serial_device.py\<close>

text \<open>
  \<open>bytearray.find(sub)\<close>: the lowest index at which \<open>sub\<close> occurs, \<open>None\<close> standing for
  Python's -1.
\<close>

fun find_bytes :: "byte list \<Rightarrow> byte list \<Rightarrow> nat option" where
  "find_bytes sub [] = (if sub = [] then Some 0 else None)"
| "find_bytes sub (x # xs) =
     (if prefix sub (x # xs) then Some 0 else map_option Suc (find_bytes sub xs))"

definition PACKET_LENGTH :: nat where
  "PACKET_LENGTH = 29"

definition EXPECTED_HEADER :: "byte list" where
  "EXPECTED_HEADER = [0xD2, 0xD2, 0xD2]"

text \<open>
  What one extracted packet leads to inside \<open>_read_loop\<close>: the decoded packet is handed to
  \<open>on_packet\<close>; a PacketError is logged as a warning and the packet dropped; any other
  exception leaves the inner loop through the outer \<open>except Exception\<close> handler.
\<close>

datatype event =
    OnPacket "byte list" sample
  | ParseWarning "byte list"
  | ProcessingError error

text \<open>
  The inner \<open>while len(buffer) >= PACKET_LENGTH\<close> loop of \<open>_read_loop\<close>. It returns the
  accumulator it leaves behind and the events it produced, in order.
\<close>

function read_loop_scan :: "byte list \<Rightarrow> byte list \<times> event list" where
  "read_loop_scan buffer =
     (if length buffer \<ge> PACKET_LENGTH then
        (case find_bytes EXPECTED_HEADER buffer of
           None \<Rightarrow>
             (if length buffer > PACKET_LENGTH
              then (drop (length buffer - (PACKET_LENGTH - 1)) buffer, [])
              else (buffer, []))
         | Some header_pos \<Rightarrow>
             (let buffer1 = (if header_pos > 0 then drop header_pos buffer else buffer) in
              if length buffer1 < PACKET_LENGTH then (buffer1, [])
              else
                (let packet_data = take PACKET_LENGTH buffer1;
                     buffer2 = drop PACKET_LENGTH buffer1
                 in case parse_packet packet_data of
                      Inr packet \<Rightarrow>
                        (case read_loop_scan buffer2 of
                           (b, evs) \<Rightarrow> (b, OnPacket packet_data packet # evs))
                    | Inl e \<Rightarrow>
                        (if e = PacketError then
                           (case read_loop_scan buffer2 of
                              (b, evs) \<Rightarrow> (b, ParseWarning packet_data # evs))
                         else (buffer2, [ProcessingError e])))))
      else (buffer, []))"
  by pat_completeness auto
termination
  by (relation "measure length") (auto simp: PACKET_LENGTH_def split: if_splits)

declare read_loop_scan.simps [simp del]

text \<open>
  One pass of the outer loop: \<open>data\<close> is what \<open>read(in_waiting)\<close> returned, and nothing
  is done when no byte is waiting.
\<close>

definition read_loop_iteration :: "byte list \<Rightarrow> byte list \<Rightarrow> byte list \<times> event list" where
  "read_loop_iteration buffer data =
     (if length data > 0 then read_loop_scan (buffer @ data) else (buffer, []))"

text \<open>The outer loop over the successive reads, starting from a given accumulator.\<close>

fun read_loop :: "byte list \<Rightarrow> byte list list \<Rightarrow> byte list \<times> event list" where
  "read_loop buffer [] = (buffer, [])"
| "read_loop buffer (data # rest) =
     (case read_loop_iteration buffer data of
        (buffer1, evs1) \<Rightarrow>
          (case read_loop buffer1 rest of
             (buffer2, evs2) \<Rightarrow> (buffer2, evs1 @ evs2)))"

text \<open>Auxiliary notions used to state the properties of the synchronizer.\<close>

text \<open>The event an extracted packet produces when the decoder raises nothing but PacketError.\<close>

definition packet_event :: "byte list \<Rightarrow> event" where
  "packet_event packet_data =
     (case parse_packet packet_data of
        Inr packet \<Rightarrow> OnPacket packet_data packet
      | Inl e \<Rightarrow> ParseWarning packet_data)"

text \<open>A valid frame: 29 bytes, the marker, and one of the two recognised type bytes.\<close>

definition valid_frame :: "byte list \<Rightarrow> bool" where
  "valid_frame F \<longleftrightarrow> length F = 29 \<and> prefix HEADER F \<and> (F ! 3 = 0xAA \<or> F ! 3 = 0xBB)"

text \<open>
  The situation while the frame \<open>F\<close> is still on its way: the accumulator \<open>B\<close> followed by
  the bytes \<open>R\<close> not yet read is some marker-free garbage \<open>X\<close>, not ending in D2, followed
  by \<open>F\<close>, and \<open>B\<close> does not hold all of \<open>F\<close> yet.
\<close>

definition pending :: "byte list \<Rightarrow> byte list \<Rightarrow> byte list \<Rightarrow> bool" where
  "pending F B R \<longleftrightarrow>
     (\<exists>X. B @ R = X @ F \<and> find_bytes EXPECTED_HEADER X = None
        \<and> (X = [] \<or> last X \<noteq> 0xD2) \<and> length B < length X + 29)"

text \<open>A muscle frame with sequence number 7, used for concrete evaluations.\<close>

definition example_frame :: "byte list" where
  "example_frame =
     [0xD2, 0xD2, 0xD2, 0xAA, 0x07,
      0x80, 0x00, 0x00,  0x7F, 0xFF, 0xFF,  0x00, 0x00, 0x01,  0xFF, 0xFF, 0xFF,
      0x00, 0x00, 0x00,  0x00, 0x00, 0x00,  0x00, 0x00, 0x00,  0x00, 0x00, 0x2A]"

section \<open>buffers.py\<close>

text \<open>
  \<open>EmgRingBuffer\<close>: \<open>data\<close> is the numpy array of shape (channels, capacity), kept as one
  list per channel. The array has dtype float32, so a column assignment converts each
  appended value to the stored type. \<open>EmgRingBuffer_append\<close> takes that conversion as its
  first argument and leaves the stored type \<open>'w\<close> open; the code's conversion is
  \<open>to_float32\<close>, defined at the end of this section, into the type \<open>float32\<close>.
\<close>

record 'w EmgRingBuffer =
  channels :: nat
  capacity :: nat
  data :: "'w list list"
  index :: nat
  filled :: bool

definition EmgRingBuffer_init :: "nat \<Rightarrow> nat \<Rightarrow> ('w::zero) EmgRingBuffer" where
  "EmgRingBuffer_init chans cap =
     \<lparr>channels = chans, capacity = cap, data = replicate chans (replicate cap 0),
      index = 0, filled = False\<rparr>"

text \<open>
  \<open>append\<close> returns the outcome and the buffer afterwards. The shape check raises
  ValueError before anything is written. The column assignment
  \<open>self._data[:, self._index] = values\<close> raises IndexError when the column does not exist,
  which is the case in a buffer built with capacity 0.
\<close>

definition EmgRingBuffer_append ::
  "('v \<Rightarrow> 'w) \<Rightarrow> 'v list \<Rightarrow> 'w EmgRingBuffer \<Rightarrow> (error + unit) \<times> 'w EmgRingBuffer" where
  "EmgRingBuffer_append to_float32 values b =
     (if length values \<noteq> channels b then (Inl ValueError, b)
      else if \<not> index b < capacity b then (Inl IndexError, b)
      else
        (let data1 = map (\<lambda>(row, v). row[index b := to_float32 v]) (zip (data b) values);
             index1 = (index b + 1) mod capacity b
         in (Inr (),
             b\<lparr>data := data1, index := index1,
               filled := (if index1 = 0 then True else filled b)\<rparr>)))"

definition EmgRingBuffer_snapshot :: "'w EmgRingBuffer \<Rightarrow> 'w list list" where
  "EmgRingBuffer_snapshot b =
     (if \<not> filled b then map (take (index b)) (data b)
      else map (\<lambda>row. drop (index b) row @ take (index b) row) (data b))"

definition EmgRingBuffer_clear :: "('w::zero) EmgRingBuffer \<Rightarrow> 'w EmgRingBuffer" where
  "EmgRingBuffer_clear b =
     b\<lparr>data := map (map (\<lambda>_. 0)) (data b), index := 0, filled := False\<rparr>"

text \<open>A sequence of \<open>append\<close> calls; a call that raises leaves the buffer as it was.\<close>

definition appends :: "('v \<Rightarrow> 'w) \<Rightarrow> 'v list list \<Rightarrow> 'w EmgRingBuffer \<Rightarrow> 'w EmgRingBuffer" where
  "appends to_float32 rows b = foldl (\<lambda>b values. snd (EmgRingBuffer_append to_float32 values b)) b rows"

text \<open>
  The shape of a buffer that the constructor and the methods maintain when the capacity
  is positive: one row per channel, each of the capacity's length, and a write index
  inside the rows.
\<close>

definition buffer_ok :: "'w EmgRingBuffer \<Rightarrow> bool" where
  "buffer_ok b \<longleftrightarrow>
     length (data b) = channels b \<and> list_all (\<lambda>row. length row = capacity b) (data b)
     \<and> index b < capacity b"

text \<open>
  The state of the buffer after the rows \<open>rows\<close> were appended to a fresh buffer of \<open>m\<close>
  channels and capacity \<open>c\<close>: the write index is the number of rows modulo \<open>c\<close>, the flag
  tells whether \<open>c\<close> rows were written, and each of the last \<open>c\<close> rows sits, converted, in
  the column of its number modulo \<open>c\<close>.
\<close>

definition ring_inv :: "('v \<Rightarrow> 'w) \<Rightarrow> nat \<Rightarrow> nat \<Rightarrow> 'v list list \<Rightarrow> 'w EmgRingBuffer \<Rightarrow> bool" where
  "ring_inv f m c rows b \<longleftrightarrow>
     channels b = m \<and> capacity b = c \<and> length (data b) = m
     \<and> (\<forall>j<m. length (data b ! j) = c)
     \<and> index b = length rows mod c \<and> filled b = (c \<le> length rows)
     \<and> (\<forall>j<m. \<forall>k<length rows. length rows \<le> k + c \<longrightarrow> data b ! j ! (k mod c) = f (rows ! k ! j))"

text \<open>
  The element type of the array, numpy's float32 (IEEE 754 binary32): a finite value, or an
  infinity, which the conversion of a double beyond the binary32 range gives. \<open>np.zeros\<close>
  fills the array with the finite value 0. Appended values are Python floats taken as
  reals, so NaN and infinite inputs are outside the model.
\<close>

datatype float32 = F32 real | F32_Inf | F32_NegInf

instantiation float32 :: zero
begin
definition zero_float32 :: float32 where "zero_float32 = F32 0"
instance ..
end

text \<open>Rounding to the nearest integer, ties to the even one.\<close>

definition round_half_even :: "real \<Rightarrow> int" where
  "round_half_even x =
     (let n = \<lfloor>x\<rfloor>; d = x - real_of_int n
      in if d < 1 / 2 then n else if d > 1 / 2 then n + 1
         else if even n then n else n + 1)"

text \<open>
  The spacing of the binary32 values around \<open>x\<close>: 24 significant bits, and the fixed
  spacing \<open>2 ^ -149\<close> of the subnormal range below \<open>2 ^ -126\<close>.
\<close>

definition float32_quantum :: "real \<Rightarrow> real" where
  "float32_quantum x = 2 powr real_of_int (max \<lfloor>log 2 \<bar>x\<bar>\<rfloor> (- 126) - 23)"

text \<open>
  The conversion that the column assignment applies to each appended value: round to the
  nearest binary32 value, ties to even; a result of magnitude \<open>2 ^ 128\<close> or more is an
  infinity.
\<close>

definition to_float32 :: "real \<Rightarrow> float32" where
  "to_float32 x =
     (if x = 0 then F32 0
      else
        (let q = float32_quantum x;
             r = real_of_int (round_half_even (x / q)) * q
         in if \<bar>r\<bar> \<ge> 2 ^ 128 then (if x > 0 then F32_Inf else F32_NegInf)
            else F32 r))"

section \<open>config.py and ui/main_window.py: the signal quality classifier\<close>

definition EMG_CHANNELS :: nat where
  "EMG_CHANNELS = 8"

text \<open>
  The fields of \<open>MainWindow\<close> that the quality classifier reads and writes. The channel
  lists are built in the constructor with \<open>EMG_CHANNELS\<close> entries and are only ever assigned
  by item afterwards; \<open>channel_indicators\<close> is the number of indicator widgets. Sample values,
  baselines and noise levels are Python floats, taken here as reals.
\<close>

record MainWindow =
  packet_count :: int
  baseline_initialized :: bool
  last_baseline_reset :: int
  channel_baseline :: "real list"
  channel_last_values :: "real list"
  channel_current_state :: "nat list"
  channel_noise_level :: "real list"
  channel_indicators :: nat

text \<open>\<open>self._initialization_samples\<close>, set to 500 in the constructor and never changed.\<close>

definition initialization_samples :: int where
  "initialization_samples = 500"

text \<open>The classifier fields as the constructor sets them.\<close>

definition MainWindow_init :: MainWindow where
  "MainWindow_init =
     \<lparr>packet_count = 0, baseline_initialized = False, last_baseline_reset = 0,
      channel_baseline = replicate EMG_CHANNELS 0,
      channel_last_values = replicate EMG_CHANNELS 0,
      channel_current_state = replicate EMG_CHANNELS 0,
      channel_noise_level = replicate EMG_CHANNELS 0,
      channel_indicators = EMG_CHANNELS\<rparr>"

text \<open>
  The \<open>thresholds\<close> dictionary of \<open>_update_channel_indicator\<close>: for each state the pair
  (falling threshold, rising threshold). The dictionary has the keys 0 to 4.
\<close>

definition thresholds :: "real \<Rightarrow> nat \<Rightarrow> real \<times> real" where
  "thresholds noise_baseline k =
     (if k = 0 then (0, noise_baseline * 2.0)
      else if k = 1 then (noise_baseline * 1.5, noise_baseline * 4.0)
      else if k = 2 then (noise_baseline * 3.5, noise_baseline * 7.0)
      else if k = 3 then (noise_baseline * 6.5, noise_baseline * 12.0)
      else (noise_baseline * 11.0, 999999))"

text \<open>
  The state decision of \<open>_update_channel_indicator\<close>, from the channel's noise level, its
  current state and the observed strength: first the falling chain, then the rising chain,
  which overrides it.
\<close>

definition next_state :: "real \<Rightarrow> nat \<Rightarrow> real \<Rightarrow> nat" where
  "next_state noise_level current_state strength =
     (let noise_baseline = max noise_level 100;
          th = thresholds noise_baseline;
          fallen =
            (if strength < snd (th 0) then 0
             else if strength < snd (th 1) then (if current_state \<ge> 2 then 1 else current_state)
             else if strength < snd (th 2) then (if current_state \<ge> 3 then 2 else current_state)
             else if strength < snd (th 3) then (if current_state \<ge> 4 then 3 else current_state)
             else current_state)
      in if current_state = 0 \<and> strength \<ge> snd (th 0) then 1
         else if current_state = 1 \<and> strength \<ge> snd (th 1) then 2
         else if current_state = 2 \<and> strength \<ge> snd (th 2) then 3
         else if current_state = 3 \<and> strength \<ge> snd (th 3) then 4
         else fallen)"

text \<open>
  \<open>_update_channel_indicator(channel_idx, strength)\<close>: nothing happens for an index without
  an indicator widget; otherwise the channel's state is replaced by the decision above
  (the widget texts and colours are not part of the model).
\<close>

definition update_channel_indicator :: "MainWindow \<Rightarrow> nat \<Rightarrow> real \<Rightarrow> MainWindow" where
  "update_channel_indicator w channel_idx strength =
     (if channel_idx \<ge> channel_indicators w then w
      else w\<lparr>channel_current_state :=
             (channel_current_state w)[channel_idx :=
                next_state (channel_noise_level w ! channel_idx)
                  (channel_current_state w ! channel_idx) strength]\<rparr>)"

text \<open>
  One turn of the calibration loop \<open>for i, ch_value in enumerate(sample.channels_uv)\<close> of
  \<open>_handle_emg_sample\<close>.
\<close>

definition calibration_channel :: "MainWindow \<Rightarrow> nat \<times> real \<Rightarrow> MainWindow" where
  "calibration_channel w p =
     (case p of (i, ch_value) \<Rightarrow>
        (let alpha = 0.1;
             w1 = w\<lparr>channel_baseline :=
                    (channel_baseline w)[i := alpha * ch_value + (1 - alpha) * channel_baseline w ! i]\<rparr>;
             w2 = (if packet_count w1 > 50 then
                     (let deviation = \<bar>ch_value - channel_baseline w1 ! i\<bar>;
                          change_rate = \<bar>ch_value - channel_last_values w1 ! i\<bar>;
                          activity = deviation * 0.7 + change_rate * 0.3
                      in w1\<lparr>channel_noise_level :=
                            (channel_noise_level w1)[i := channel_noise_level w1 ! i + activity]\<rparr>)
                   else w1)
         in w2\<lparr>channel_last_values := (channel_last_values w2)[i := ch_value]\<rparr>))"

text \<open>
  One turn of the steady-state loop: the deviation from the baseline is the channel's
  activity, and the baseline follows the value at a rate that depends on the deviation.
\<close>

definition steady_channel :: "MainWindow \<times> real list \<Rightarrow> nat \<times> real \<Rightarrow> MainWindow \<times> real list" where
  "steady_channel s p =
     (case s of (w, channel_activity) \<Rightarrow>
      case p of (i, ch_value) \<Rightarrow>
        (let deviation = \<bar>ch_value - channel_baseline w ! i\<bar>;
             alpha = (if deviation < channel_noise_level w ! i * 2 then 0.02
                      else if deviation < channel_noise_level w ! i * 5 then 0.002
                      else 0.0001);
             w1 = w\<lparr>channel_baseline :=
                    (channel_baseline w)[i := alpha * ch_value + (1 - alpha) * channel_baseline w ! i]\<rparr>;
             activity = deviation
         in (w1\<lparr>channel_last_values := (channel_last_values w1)[i := ch_value]\<rparr>,
             channel_activity @ [activity])))"

text \<open>The end of the calibration phase: every channel's accumulated activity is averaged.\<close>

definition finish_calibration :: "MainWindow \<Rightarrow> MainWindow" where
  "finish_calibration w =
     w\<lparr>baseline_initialized := True,
       channel_noise_level :=
         foldl (\<lambda>nl i. nl[i := nl ! i / real_of_int (initialization_samples - 50)])
           (channel_noise_level w) [0..<EMG_CHANNELS],
       last_baseline_reset := packet_count w\<rparr>"

text \<open>
  \<open>_handle_emg_sample\<close>, classifier part. The handler starts with
  \<open>self._buffer.append(sample.channels_uv)\<close> on a buffer of \<open>EMG_CHANNELS\<close> channels; its
  ValueError for a sample of another length is caught and ends the handler before any
  classifier field is touched. \<open>values\<close> stands for \<open>sample.channels_uv\<close>; the recorder,
  the clock and the widgets are left out.
\<close>

definition handle_emg_sample :: "MainWindow \<Rightarrow> real list \<Rightarrow> MainWindow" where
  "handle_emg_sample w values =
     (if length values \<noteq> EMG_CHANNELS then w
      else
        (let w1 = w\<lparr>packet_count := packet_count w + 1\<rparr> in
         if \<not> baseline_initialized w1 \<and> packet_count w1 \<le> initialization_samples then
           foldl calibration_channel w1 (enumerate 0 values)
         else
           (let w2 = (if \<not> baseline_initialized w1 then finish_calibration w1 else w1) in
            if packet_count w2 - last_baseline_reset w2 > 6000
               \<and> list_all (\<lambda>state. state = 0) (channel_current_state w2)
            then w2\<lparr>baseline_initialized := False, packet_count := 0\<rparr>
            else
              (case foldl steady_channel (w2, []) (enumerate 0 values) of
                 (w3, channel_activity) \<Rightarrow>
                   if packet_count w3 mod 5 = 0 then
                     foldl (\<lambda>w p. case p of (i, activity) \<Rightarrow> update_channel_indicator w i activity)
                       w3 (enumerate 0 channel_activity)
                   else w3))))"

text \<open>The channel lists have \<open>EMG_CHANNELS\<close> entries and every channel has its indicator.\<close>

definition window_ok :: "MainWindow \<Rightarrow> bool" where
  "window_ok w \<longleftrightarrow>
     length (channel_baseline w) = EMG_CHANNELS
     \<and> length (channel_last_values w) = EMG_CHANNELS
     \<and> length (channel_current_state w) = EMG_CHANNELS
     \<and> length (channel_noise_level w) = EMG_CHANNELS
     \<and> channel_indicators w = EMG_CHANNELS"

text \<open>
  What the calibration loop has done to the window \<open>w\<close> once the first \<open>n\<close> channels of
  the sample \<open>vs\<close> are processed: those channels have their baseline smoothed, their
  activity accumulated (after the 50-packet settle window) and their last value stored;
  everything else is as in \<open>w\<close>.
\<close>

definition calibrated_upto :: "MainWindow \<Rightarrow> real list \<Rightarrow> nat \<Rightarrow> MainWindow \<Rightarrow> bool" where
  "calibrated_upto w vs n w' \<longleftrightarrow>
     packet_count w' = packet_count w
     \<and> baseline_initialized w' = baseline_initialized w
     \<and> last_baseline_reset w' = last_baseline_reset w
     \<and> channel_current_state w' = channel_current_state w
     \<and> channel_indicators w' = channel_indicators w
     \<and> length (channel_baseline w') = length (channel_baseline w)
     \<and> length (channel_noise_level w') = length (channel_noise_level w)
     \<and> length (channel_last_values w') = length (channel_last_values w)
     \<and> (\<forall>i<length vs.
          channel_baseline w' ! i
            = (if i < n then 0.1 * vs ! i + 0.9 * channel_baseline w ! i else channel_baseline w ! i)
          \<and> channel_noise_level w' ! i
            = (if i < n \<and> packet_count w > 50
               then channel_noise_level w ! i
                    + (\<bar>vs ! i - (0.1 * vs ! i + 0.9 * channel_baseline w ! i)\<bar> * 0.7
                       + \<bar>vs ! i - channel_last_values w ! i\<bar> * 0.3)
               else channel_noise_level w ! i)
          \<and> channel_last_values w' ! i
            = (if i < n then vs ! i else channel_last_values w ! i))"

text \<open>
  The accumulated activity of one channel over a calibration phase, in the words of the
  specification: the baseline follows each value with factor 0.1, and once more than 50
  samples of the phase were seen each sample adds
  0.7 * |value - baseline| + 0.3 * |value - previous value|. \<open>k\<close> is the number of samples
  of the phase seen before.
\<close>

fun spec_phase_activity :: "int \<Rightarrow> real \<Rightarrow> real \<Rightarrow> real list \<Rightarrow> real" where
  "spec_phase_activity k baseline previous [] = 0"
| "spec_phase_activity k baseline previous (v # vs) =
     (let baseline1 = 0.1 * v + 0.9 * baseline in
      (if k + 1 > 50 then 0.7 * \<bar>v - baseline1\<bar> + 0.3 * \<bar>v - previous\<bar> else 0)
      + spec_phase_activity (k + 1) baseline1 v vs)"

section \<open>Properties of the packet decoder\<close>

lemma or_byte:
  assumes "0 \<le> b" "b < 256"
  shows "push_bit 8 (acc::int) OR b = acc * 256 + b"
proof -
  have tb: "take_bit 8 b = b" using assms by (simp add: take_bit_int_eq_self)
  have "push_bit 8 acc AND take_bit 8 b = 0"
    by (rule bit_eqI) (auto simp: bit_simps)
  then have "push_bit 8 acc + b = push_bit 8 acc OR b"
    using tb by (simp add: disjunctive_add_eq_or)
  then show ?thesis by (simp add: push_bit_eq_mult)
qed

lemma combine_loop_foldl:
  "combine_loop acc (map uint bs) = foldl (\<lambda>v b. v * 256 + uint b) acc (bs :: byte list)"
proof (induction bs arbitrary: acc)
  case Nil
  show ?case by simp
next
  case (Cons b bs)
  have "uint b < 256" using uint_bounded [of b] by simp
  then show ?case using Cons by (simp add: or_byte)
qed

lemma foldl_bounds:
  "0 \<le> acc \<Longrightarrow> 0 \<le> foldl (\<lambda>v b. v * 256 + uint b) acc (bs :: byte list) \<and>
    foldl (\<lambda>v b. v * 256 + uint b) acc bs < (acc + 1) * 256 ^ length bs"
proof (induction bs arbitrary: acc)
  case Nil
  then show ?case by simp
next
  case (Cons b bs)
  have b: "0 \<le> uint b" "uint b < 256" using uint_bounded [of b] by simp_all
  have "0 \<le> acc * 256 + uint b" using Cons.prems b by simp
  from Cons.IH [OF this] have nonneg:
    "0 \<le> foldl (\<lambda>v b. v * 256 + uint b) (acc * 256 + uint b) bs"
    and below: "foldl (\<lambda>v b. v * 256 + uint b) (acc * 256 + uint b) bs
      < (acc * 256 + uint b + 1) * 256 ^ length bs"
    by simp_all
  have "(acc * 256 + uint b + 1) * 256 ^ length bs \<le> ((acc + 1) * 256) * 256 ^ length bs"
    using b by (intro mult_right_mono) simp_all
  with below have "foldl (\<lambda>v b. v * 256 + uint b) (acc * 256 + uint b) bs
      < ((acc + 1) * 256) * 256 ^ length bs"
    by linarith
  then show ?case using nonneg by (simp add: algebra_simps)
qed

lemma spec_be_unsigned_bounds:
  "0 \<le> spec_be_unsigned bs \<and> spec_be_unsigned bs < 256 ^ length bs"
  using foldl_bounds [of 0 bs] by (simp add: spec_be_unsigned_def)

lemma top_bit_iff:
  assumes "0 \<le> v" "v < 2 ^ Suc n"
  shows "bit (v::int) n = (2 ^ n \<le> v)"
proof -
  have "take_bit (Suc n) v = v" using assms by (simp add: take_bit_int_eq_self)
  then have eq: "v = 2 ^ n * of_bool (bit v n) + take_bit n v"
    using take_bit_Suc_from_most [of n v] by simp
  have lo: "0 \<le> take_bit n v" and hi: "take_bit n v < 2 ^ n" by simp_all
  show ?thesis
  proof (cases "bit v n")
    case True
    with eq have "v = 2 ^ n + take_bit n v" by simp
    with lo True show ?thesis by linarith
  next
    case False
    with eq have "v = take_bit n v" by simp
    with hi False show ?thesis by linarith
  qed
qed

lemma combine_signed_spec:
  assumes "bs \<noteq> []"
  shows "combine_signed (map uint bs) (int (8 * length bs))
    = Inr (spec_twos_complement (8 * length bs) (spec_be_unsigned bs))"
proof -
  from assms have pos: "0 < length bs" by simp
  have n: "nat (int (8 * length bs) - 1) = 8 * length bs - 1" by simp
  show ?thesis
    using pos
    by (simp add: combine_signed_def combine_loop_foldl spec_be_unsigned_def
        spec_twos_complement_def bit_iff_and_push_bit_not_eq_0 n Let_def del: of_nat_mult)
qed

text \<open>With the top bit read as a comparison, and as the library's signed reading of a word.\<close>

lemma spec_twos_complement_ge:
  assumes "0 < w" "0 \<le> v" "v < 2 ^ w"
  shows "spec_twos_complement w v = (if 2 ^ (w - 1) \<le> v then v - 2 ^ w else v)"
proof -
  from assms(1) obtain n where w: "w = Suc n" by (cases w) auto
  show ?thesis using top_bit_iff [of v n] assms w by (simp add: spec_twos_complement_def)
qed

lemma spec_twos_complement_sint24:
  assumes "0 \<le> v" "v < 2 ^ 24"
  shows "spec_twos_complement 24 v = sint (word_of_int v :: 24 word)"
  using assms
  by (simp add: spec_twos_complement_def sint_sbintrunc' signed_take_bit_eq_take_bit_minus
      take_bit_int_eq_self)

lemma spec_twos_complement_sint16:
  assumes "0 \<le> v" "v < 2 ^ 16"
  shows "spec_twos_complement 16 v = sint (word_of_int v :: 16 word)"
  using assms
  by (simp add: spec_twos_complement_def sint_sbintrunc' signed_take_bit_eq_take_bit_minus
      take_bit_int_eq_self)

lemma combine_signed_24:
  "combine_signed [uint a, uint b, uint c] 24
    = Inr (spec_twos_complement 24 (spec_be_unsigned [a, b, c]))"
  using combine_signed_spec [of "[a, b, c]"] by simp

lemma combine_signed_16:
  "combine_signed [uint a, uint b] 16 = Inr (spec_twos_complement 16 (spec_be_unsigned [a, b]))"
  using combine_signed_spec [of "[a, b]"] by simp

lemma emg_loop_total: "\<exists>chs. emg_loop p = Inr chs \<and> length chs = length p div 3"
proof (induction p rule: emg_loop.induct)
  case (1 a b c rest)
  then show ?case by (auto simp: combine_signed_24)
qed simp_all

lemma imu_loop_total: "\<exists>ds. imu_loop p = Inr ds \<and> length ds = length p div 2"
proof (induction p rule: imu_loop.induct)
  case (1 a b rest)
  then show ?case by (auto simp: combine_signed_16)
qed simp_all

lemma emg_loop_nth:
  "emg_loop p = Inr chs \<Longrightarrow> k < length p div 3 \<Longrightarrow>
   chs ! k = real_of_int (spec_twos_complement 24
     (spec_be_unsigned [p ! (3 * k), p ! (3 * k + 1), p ! (3 * k + 2)]))"
proof (induction p arbitrary: chs k rule: emg_loop.induct)
  case (1 a b c rest)
  obtain tl where tl: "emg_loop rest = Inr tl" using emg_loop_total [of rest] by blast
  with "1.prems"(1)
  have chs: "chs = real_of_int (spec_twos_complement 24 (spec_be_unsigned [a, b, c])) # tl"
    by (simp add: combine_signed_24)
  show ?case
  proof (cases k)
    case 0
    with chs show ?thesis by simp
  next
    case (Suc j)
    with "1.prems"(2) have "j < length rest div 3" by simp
    from "1.IH" [OF combine_signed_24 tl this] Suc chs show ?thesis by simp
  qed
qed simp_all

lemma parse_packet_cases:
  "parse_packet raw =
     (if length raw \<noteq> 29 \<or> \<not> prefix HEADER raw then Inl PacketError
      else if raw ! 3 = 0xAA then
        (case emg_loop (drop 5 raw) of Inl e \<Rightarrow> Inl e
         | Inr chs \<Rightarrow> Inr (EmgSample (uint (raw ! 4)) chs))
      else if raw ! 3 = 0xBB then
        (case imu_loop (drop 5 raw) of Inl e \<Rightarrow> Inl e
         | Inr decoded \<Rightarrow>
             Inr (ImuSample (uint (raw ! 4))
                    (map (\<lambda>v. real_of_int v * 0.0012) (take 3 decoded))
                    (map (\<lambda>v. real_of_int v * 0.0005978) (take 3 (drop 3 decoded)))
                    (drop 6 decoded)))
      else Inl PacketError)"
  by (simp add: parse_packet_def PAYLOAD_LENGTH_def getitem_def Let_def)

text \<open>
  C3. \<open>parse_packet raw\<close> raises PacketError exactly when the length is not 29, or the
  input does not start with D2 D2 D2, or byte 3 is neither AA nor BB; in every other case it
  returns an EmgSample (byte 3 = AA) or an ImuSample (byte 3 = BB) whose sequence field is
  byte 4.
\<close>

theorem parse_packet_error_iff:
  "(parse_packet raw = Inl PacketError \<longleftrightarrow>
      length raw \<noteq> 29 \<or> \<not> prefix [0xD2, 0xD2, 0xD2] raw
      \<or> (raw ! 3 \<noteq> 0xAA \<and> raw ! 3 \<noteq> 0xBB))
   \<and> (length raw = 29 \<and> prefix [0xD2, 0xD2, 0xD2] raw \<and> raw ! 3 = 0xAA \<longrightarrow>
        (\<exists>chs. parse_packet raw = Inr (EmgSample (uint (raw ! 4)) chs)))
   \<and> (length raw = 29 \<and> prefix [0xD2, 0xD2, 0xD2] raw \<and> raw ! 3 = 0xBB \<longrightarrow>
        (\<exists>g a r. parse_packet raw = Inr (ImuSample (uint (raw ! 4)) g a r)))"
proof -
  obtain chs where chs: "emg_loop (drop 5 raw) = Inr chs" using emg_loop_total by blast
  obtain ds where ds: "imu_loop (drop 5 raw) = Inr ds" using imu_loop_total by blast
  show ?thesis
    unfolding parse_packet_cases using chs ds by (auto simp: HEADER_def)
qed

theorem parse_packet_error_iff_witness:
  "length [0xD2,0xD2,0xD2,0xAA,7, 0x80,0,0, 0x7F,0xFF,0xFF, 0,0,1, 0xFF,0xFF,0xFF, 0,0,0, 0,0,0, 0,0,0, 0,0,0 :: byte] = 29
   \<and> prefix [0xD2, 0xD2, 0xD2] [0xD2,0xD2,0xD2,0xAA,7, 0x80,0,0, 0x7F,0xFF,0xFF, 0,0,1, 0xFF,0xFF,0xFF, 0,0,0, 0,0,0, 0,0,0, 0,0,0 :: byte]
   \<and> (\<exists>chs. parse_packet [0xD2,0xD2,0xD2,0xAA,7, 0x80,0,0, 0x7F,0xFF,0xFF, 0,0,1, 0xFF,0xFF,0xFF, 0,0,0, 0,0,0, 0,0,0, 0,0,0] = Inr (EmgSample 7 chs))
   \<and> parse_packet [0xD2,0xD2,0xD2,0xCC,7] = Inl PacketError"
  using parse_packet_error_iff [of "[0xD2,0xD2,0xD2,0xAA,7, 0x80,0,0, 0x7F,0xFF,0xFF, 0,0,1, 0xFF,0xFF,0xFF, 0,0,0, 0,0,0, 0,0,0, 0,0,0]"]
    parse_packet_error_iff [of "[0xD2,0xD2,0xD2,0xCC,7]"]
  by simp

text \<open>
  C4. Signed decoding is exact two's complement for the widths 16 and 24: a group of 2
  (resp. 3) bytes, combined most-significant-first into the unsigned value \<open>v\<close>, decodes to
  \<open>v - 2 ^ w\<close> when the top bit of \<open>v\<close> is set (that is, when \<open>2 ^ (w - 1) \<le> v\<close>) and to
  \<open>v\<close> otherwise. In a valid muscle frame, a channel group 80 00 00 decodes to -8388608 and
  a channel group 7F FF FF to 8388607.
\<close>

theorem combine_signed_twos_complement:
  "(\<forall>bs :: byte list. length bs = 2 \<longrightarrow>
      combine_signed (map uint bs) 16 = Inr (spec_twos_complement 16 (spec_be_unsigned bs))
      \<and> spec_twos_complement 16 (spec_be_unsigned bs)
          = (if 2 ^ 15 \<le> spec_be_unsigned bs then spec_be_unsigned bs - 2 ^ 16
             else spec_be_unsigned bs))
   \<and> (\<forall>bs :: byte list. length bs = 3 \<longrightarrow>
      combine_signed (map uint bs) 24 = Inr (spec_twos_complement 24 (spec_be_unsigned bs))
      \<and> spec_twos_complement 24 (spec_be_unsigned bs)
          = (if 2 ^ 23 \<le> spec_be_unsigned bs then spec_be_unsigned bs - 2 ^ 24
             else spec_be_unsigned bs))
   \<and> (\<forall>raw k. length raw = 29 \<and> prefix HEADER raw \<and> raw ! 3 = 0xAA \<and> k < 8 \<longrightarrow>
        (\<exists>chs. parse_packet raw = Inr (EmgSample (uint (raw ! 4)) chs) \<and> length chs = 8
           \<and> ([raw ! (5 + 3 * k), raw ! (6 + 3 * k), raw ! (7 + 3 * k)] = [0x80, 0x00, 0x00]
                \<longrightarrow> chs ! k = - 8388608)
           \<and> ([raw ! (5 + 3 * k), raw ! (6 + 3 * k), raw ! (7 + 3 * k)] = [0x7F, 0xFF, 0xFF]
                \<longrightarrow> chs ! k = 8388607)))"
proof (intro conjI allI impI)
  fix bs :: "byte list" assume l: "length bs = 2"
  then have ne: "bs \<noteq> []" by auto
  show "combine_signed (map uint bs) 16 = Inr (spec_twos_complement 16 (spec_be_unsigned bs))"
    using combine_signed_spec [OF ne] l by simp
  show "spec_twos_complement 16 (spec_be_unsigned bs)
          = (if 2 ^ 15 \<le> spec_be_unsigned bs then spec_be_unsigned bs - 2 ^ 16
             else spec_be_unsigned bs)"
    using spec_twos_complement_ge [of 16 "spec_be_unsigned bs"] spec_be_unsigned_bounds [of bs] l
    by simp
next
  fix bs :: "byte list" assume l: "length bs = 3"
  then have ne: "bs \<noteq> []" by auto
  show "combine_signed (map uint bs) 24 = Inr (spec_twos_complement 24 (spec_be_unsigned bs))"
    using combine_signed_spec [OF ne] l by simp
  show "spec_twos_complement 24 (spec_be_unsigned bs)
          = (if 2 ^ 23 \<le> spec_be_unsigned bs then spec_be_unsigned bs - 2 ^ 24
             else spec_be_unsigned bs)"
    using spec_twos_complement_ge [of 24 "spec_be_unsigned bs"] spec_be_unsigned_bounds [of bs] l
    by simp
next
  fix raw :: "byte list" and k :: nat
  assume a: "length raw = 29 \<and> prefix HEADER raw \<and> raw ! 3 = 0xAA \<and> k < 8"
  obtain chs where chs: "emg_loop (drop 5 raw) = Inr chs" "length chs = length (drop 5 raw) div 3"
    using emg_loop_total by blast
  have k: "k < length (drop 5 raw) div 3" using a by simp
  have nth: "chs ! k = real_of_int (spec_twos_complement 24
     (spec_be_unsigned [raw ! (5 + 3 * k), raw ! (6 + 3 * k), raw ! (7 + 3 * k)]))"
    using emg_loop_nth [OF chs(1) k] a by (simp add: add.commute add.left_commute)
  have p: "parse_packet raw = Inr (EmgSample (uint (raw ! 4)) chs)"
    unfolding parse_packet_cases using a chs by simp
  have lo: "spec_twos_complement 24 (spec_be_unsigned [0x80, 0x00, 0x00]) = - 8388608"
    by (simp add: spec_twos_complement_def spec_be_unsigned_def)
  have hi: "spec_twos_complement 24 (spec_be_unsigned [0x7F, 0xFF, 0xFF]) = 8388607"
    by (simp add: spec_twos_complement_def spec_be_unsigned_def)
  show "\<exists>chs. parse_packet raw = Inr (EmgSample (uint (raw ! 4)) chs) \<and> length chs = 8
           \<and> ([raw ! (5 + 3 * k), raw ! (6 + 3 * k), raw ! (7 + 3 * k)] = [0x80, 0x00, 0x00]
                \<longrightarrow> chs ! k = - 8388608)
           \<and> ([raw ! (5 + 3 * k), raw ! (6 + 3 * k), raw ! (7 + 3 * k)] = [0x7F, 0xFF, 0xFF]
                \<longrightarrow> chs ! k = 8388607)"
  proof (intro exI conjI impI)
    show "parse_packet raw = Inr (EmgSample (uint (raw ! 4)) chs)" by (rule p)
    show "length chs = 8" using chs(2) a by simp
  next
    assume "[raw ! (5 + 3 * k), raw ! (6 + 3 * k), raw ! (7 + 3 * k)] = [0x80, 0x00, 0x00]"
    then show "chs ! k = - 8388608" using nth lo by simp
  next
    assume "[raw ! (5 + 3 * k), raw ! (6 + 3 * k), raw ! (7 + 3 * k)] = [0x7F, 0xFF, 0xFF]"
    then show "chs ! k = 8388607" using nth hi by simp
  qed
qed

theorem combine_signed_twos_complement_witness:
  "combine_signed (map uint [0x80, 0x00, 0x00 :: byte]) 24 = Inr (- 8388608)
   \<and> combine_signed (map uint [0x7F, 0xFF, 0xFF :: byte]) 24 = Inr 8388607
   \<and> combine_signed (map uint [0xFF, 0xFE :: byte]) 16 = Inr (- 2)
   \<and> (\<exists>chs. parse_packet [0xD2,0xD2,0xD2,0xAA,7, 0x80,0,0, 0x7F,0xFF,0xFF, 0,0,1, 0xFF,0xFF,0xFF,
          0,0,0, 0,0,0, 0,0,0, 0,0,0] = Inr (EmgSample 7 chs)
         \<and> chs ! 0 = - 8388608 \<and> chs ! 1 = 8388607)"
proof -
  note t = combine_signed_twos_complement
  have a: "combine_signed (map uint [0x80, 0x00, 0x00 :: byte]) 24 = Inr (- 8388608)"
    using t [THEN conjunct2, THEN conjunct1, rule_format, of "[0x80, 0x00, 0x00]"]
    by (simp add: spec_be_unsigned_def)
  have b: "combine_signed (map uint [0x7F, 0xFF, 0xFF :: byte]) 24 = Inr 8388607"
    using t [THEN conjunct2, THEN conjunct1, rule_format, of "[0x7F, 0xFF, 0xFF]"]
    by (simp add: spec_be_unsigned_def)
  have c: "combine_signed (map uint [0xFF, 0xFE :: byte]) 16 = Inr (- 2)"
    using t [THEN conjunct1, rule_format, of "[0xFF, 0xFE]"]
    by (simp add: spec_be_unsigned_def)
  have d: "\<exists>chs. parse_packet [0xD2,0xD2,0xD2,0xAA,7, 0x80,0,0, 0x7F,0xFF,0xFF, 0,0,1, 0xFF,0xFF,0xFF,
          0,0,0, 0,0,0, 0,0,0, 0,0,0] = Inr (EmgSample 7 chs)
         \<and> chs ! 0 = - 8388608 \<and> chs ! 1 = 8388607"
    using t [THEN conjunct2, THEN conjunct2, rule_format, of "[0xD2,0xD2,0xD2,0xAA,7, 0x80,0,0, 0x7F,0xFF,0xFF, 0,0,1, 0xFF,0xFF,0xFF,
          0,0,0, 0,0,0, 0,0,0, 0,0,0]" 0]
      t [THEN conjunct2, THEN conjunct2, rule_format, of "[0xD2,0xD2,0xD2,0xAA,7, 0x80,0,0, 0x7F,0xFF,0xFF, 0,0,1, 0xFF,0xFF,0xFF,
          0,0,0, 0,0,0, 0,0,0, 0,0,0]" 1]
    by (auto simp: HEADER_def)
  from a b c d show ?thesis by blast
qed

text \<open>
  C10. For every byte string, \<open>parse_packet\<close> either returns an EmgSample or an ImuSample or
  raises PacketError: the guarded reads of bytes 3 and 4 and the shifts of
  \<open>combine_signed\<close> never raise IndexError or ValueError.
\<close>

theorem parse_packet_total:
  "parse_packet raw = Inl PacketError
   \<or> (\<exists>s chs. parse_packet raw = Inr (EmgSample s chs))
   \<or> (\<exists>s g a r. parse_packet raw = Inr (ImuSample s g a r))"
proof -
  obtain chs where chs: "emg_loop (drop 5 raw) = Inr chs" using emg_loop_total by blast
  obtain ds where ds: "imu_loop (drop 5 raw) = Inr ds" using imu_loop_total by blast
  show ?thesis
    unfolding parse_packet_cases using chs ds by simp
qed

theorem parse_packet_total_witness:
  "parse_packet [] = Inl PacketError
   \<and> parse_packet [0xD2, 0xD2, 0xD2] = Inl PacketError
   \<and> parse_packet (replicate 40 0xD2) = Inl PacketError"
  using parse_packet_total [of "[]"] parse_packet_total [of "[0xD2, 0xD2, 0xD2]"]
    parse_packet_total [of "replicate 40 0xD2"]
  by (simp add: parse_packet_cases)

section \<open>Properties of the frame synchronizer\<close>

lemma parse_packet_only_PacketError: "parse_packet raw = Inl e \<Longrightarrow> e = PacketError"
proof -
  obtain chs where chs: "emg_loop (drop 5 raw) = Inr chs" using emg_loop_total by blast
  obtain ds where ds: "imu_loop (drop 5 raw) = Inr ds" using imu_loop_total by blast
  assume "parse_packet raw = Inl e"
  then show ?thesis
    unfolding parse_packet_cases using chs ds by (auto split: if_splits)
qed

lemma read_loop_scan_unfold:
  "read_loop_scan buffer =
     (if length buffer < 29 then (buffer, [])
      else case find_bytes EXPECTED_HEADER buffer of
        None \<Rightarrow> (if length buffer > 29 then drop (length buffer - 28) buffer else buffer, [])
      | Some pos \<Rightarrow>
          if length buffer - pos < 29 then (drop pos buffer, [])
          else (fst (read_loop_scan (drop (pos + 29) buffer)),
                packet_event (take 29 (drop pos buffer))
                  # snd (read_loop_scan (drop (pos + 29) buffer))))"
proof -
  have drop0: "\<And>pos. (if 0 < pos then drop pos buffer else buffer) = drop pos buffer"
    by simp
  show ?thesis
    apply (subst read_loop_scan.simps)
    apply (simp only: drop0 Let_def PACKET_LENGTH_def)
    apply (auto simp: packet_event_def add.commute split: option.splits sum.splits prod.splits
        dest: parse_packet_only_PacketError)
    done
qed

lemma scan_length: "length (fst (read_loop_scan b)) \<le> 29"
proof (induction "length b" arbitrary: b rule: less_induct)
  case less
  show ?case
  proof (cases "find_bytes EXPECTED_HEADER b")
    case None
    then show ?thesis by (subst read_loop_scan_unfold) auto
  next
    case (Some pos)
    show ?thesis
    proof (cases "length b < 29 \<or> length b - pos < 29")
      case True
      then show ?thesis using Some by (subst read_loop_scan_unfold) auto
    next
      case False
      then have "length (drop (pos + 29) b) < length b" by (simp, arith)
      from less [OF this] show ?thesis using Some False
        by (subst read_loop_scan_unfold) auto
    qed
  qed
qed

lemma find_bytes_no_D2: "0xD2 \<notin> set xs \<Longrightarrow> find_bytes EXPECTED_HEADER xs = None"
  by (induction xs) (auto simp: EXPECTED_HEADER_def)

lemma find_bytes_short: "length xs < length sub \<Longrightarrow> find_bytes sub xs = None"
proof (induction xs)
  case Nil
  then show ?case by auto
next
  case (Cons x xs)
  then have "\<not> prefix sub (x # xs)" by (auto dest: prefix_length_le)
  with Cons show ?case by simp
qed

lemma find_bytes_drop_None:
  "find_bytes sub xs = None \<Longrightarrow> find_bytes sub (drop k xs) = None"
proof (induction xs arbitrary: k)
  case Nil
  then show ?case by simp
next
  case (Cons x xs)
  then show ?case by (cases k) (auto split: if_splits)
qed

lemma find_bytes_prefix_stream:
  assumes "find_bytes EXPECTED_HEADER X = None" "X = [] \<or> last X \<noteq> 0xD2"
    "prefix EXPECTED_HEADER F"
  shows "find_bytes EXPECTED_HEADER (take n (X @ F))
    = (if length X + 3 \<le> n then Some (length X) else None)"
  using assms
proof (induction X arbitrary: n)
  case Nil
  show ?case
  proof (cases "3 \<le> n")
    case True
    from Nil(3) obtain F' where "F = [0xD2, 0xD2, 0xD2] @ F'"
      by (auto simp: EXPECTED_HEADER_def prefix_def)
    then have "prefix EXPECTED_HEADER (take n F)" using True
      by (auto simp: EXPECTED_HEADER_def take_Cons' )
    moreover have "take n F \<noteq> []" using True \<open>F = [0xD2, 0xD2, 0xD2] @ F'\<close> by auto
    ultimately show ?thesis using True by (cases "take n F") auto
  next
    case False
    then have "length (take n F) < length EXPECTED_HEADER" by (simp add: EXPECTED_HEADER_def)
    from find_bytes_short [OF this] False show ?thesis by simp
  qed
next
  case (Cons x X)
  from Cons.prems(1) have np: "\<not> prefix EXPECTED_HEADER (x # X)"
    and nf: "find_bytes EXPECTED_HEADER X = None"
    by (auto split: if_splits)
  from Cons.prems(2) have lx: "X = [] \<or> last X \<noteq> 0xD2" and x1: "X = [] \<Longrightarrow> x \<noteq> 0xD2"
    by (auto split: if_splits)
  show ?case
  proof (cases n)
    case 0
    then show ?thesis by (simp add: EXPECTED_HEADER_def)
  next
    case (Suc m)
    have "\<not> prefix EXPECTED_HEADER (x # take m (X @ F))"
    proof
      assume p: "prefix EXPECTED_HEADER (x # take m (X @ F))"
      show False
      proof (cases X)
        case Nil
        with p x1 show False by (simp add: EXPECTED_HEADER_def)
      next
        case (Cons y Y)
        show False
        proof (cases Y)
          case Nil
          with Cons p lx show False
            by (cases m) (auto simp: EXPECTED_HEADER_def)
        next
          case (Cons z Z)
          with \<open>X = y # Y\<close> p np show False
            by (cases m; cases "m - 1") (auto simp: EXPECTED_HEADER_def take_Cons')
        qed
      qed
    qed
    then show ?thesis
      using Cons.IH [OF nf lx Cons.prems(3), of m] Suc by simp
  qed
qed

text \<open>What \<open>find_bytes\<close> computes: \<open>None\<close> exactly when the pattern occurs nowhere.\<close>

lemma find_bytes_None_iff:
  "find_bytes sub xs = None \<longleftrightarrow> \<not> (\<exists>ps ss. xs = ps @ sub @ ss)"
proof (induction xs)
  case Nil
  then show ?case by auto
next
  case (Cons x xs)
  have "(\<exists>ps ss. x # xs = ps @ sub @ ss) \<longleftrightarrow> prefix sub (x # xs) \<or> (\<exists>ps ss. xs = ps @ sub @ ss)"
  proof
    assume "\<exists>ps ss. x # xs = ps @ sub @ ss"
    then obtain ps ss where e: "x # xs = ps @ sub @ ss" by blast
    show "prefix sub (x # xs) \<or> (\<exists>ps ss. xs = ps @ sub @ ss)"
    proof (cases ps)
      case Nil
      with e show ?thesis by (auto simp: prefix_def)
    next
      case (Cons p ps')
      with e have "xs = ps' @ sub @ ss" by simp
      then show ?thesis by blast
    qed
  next
    assume "prefix sub (x # xs) \<or> (\<exists>ps ss. xs = ps @ sub @ ss)"
    then show "\<exists>ps ss. x # xs = ps @ sub @ ss"
    proof
      assume "prefix sub (x # xs)"
      then obtain ss where "x # xs = [] @ sub @ ss" by (auto simp: prefix_def)
      then show ?thesis by blast
    next
      assume "\<exists>ps ss. xs = ps @ sub @ ss"
      then obtain ps ss where "xs = ps @ sub @ ss" by blast
      then have "x # xs = (x # ps) @ sub @ ss" by simp
      then show ?thesis by blast
    qed
  qed
  with Cons show ?case by (auto split: if_splits)
qed

lemma read_loop_empty_chunks: "concat chunks = [] \<Longrightarrow> read_loop B chunks = (B, [])"
  by (induction chunks) (auto simp: read_loop_iteration_def)

lemma scan_nil: "read_loop_scan [] = ([], [])"
  by (subst read_loop_scan_unfold) simp

lemma valid_frame_parses:
  "valid_frame F \<Longrightarrow> \<exists>packet. parse_packet F = Inr packet"
proof -
  obtain chs where chs: "emg_loop (drop 5 F) = Inr chs" using emg_loop_total by blast
  obtain ds where ds: "imu_loop (drop 5 F) = Inr ds" using imu_loop_total by blast
  assume "valid_frame F"
  then show ?thesis
    unfolding parse_packet_cases using chs ds by (auto simp: valid_frame_def)
qed

lemma scan_complete:
  assumes X: "find_bytes EXPECTED_HEADER X = None" "X = [] \<or> last X \<noteq> 0xD2"
    and F: "valid_frame F" "parse_packet F = Inr packet"
  shows "read_loop_scan (X @ F) = ([], [OnPacket F packet])"
proof -
  have pf: "prefix EXPECTED_HEADER F" using F(1) by (simp add: valid_frame_def HEADER_def EXPECTED_HEADER_def)
  have l: "length F = 29" using F(1) by (simp add: valid_frame_def)
  have "find_bytes EXPECTED_HEADER (take (length X + 29) (X @ F)) = Some (length X)"
    using find_bytes_prefix_stream [OF X pf, of "length X + 29"] by simp
  then have f: "find_bytes EXPECTED_HEADER (X @ F) = Some (length X)" using l by simp
  show ?thesis
    by (subst read_loop_scan_unfold) (simp add: f l scan_nil packet_event_def F(2))
qed

lemma scan_pending:
  assumes X: "find_bytes EXPECTED_HEADER X = None" "X = [] \<or> last X \<noteq> 0xD2"
    and F: "valid_frame F"
    and Z: "Z @ R = X @ F" "length Z < length X + 29"
  shows "\<exists>Z'. read_loop_scan Z = (Z', []) \<and> pending F Z' R"
proof -
  have pf: "prefix EXPECTED_HEADER F" using F by (simp add: valid_frame_def HEADER_def EXPECTED_HEADER_def)
  have l: "length F = 29" using F by (simp add: valid_frame_def)
  define n where "n = length Z"
  have Zt: "Z = take n (X @ F)" and Rd: "R = drop n (X @ F)"
    using Z(1) unfolding n_def by (auto simp: append_eq_conv_conj)
  have fz: "find_bytes EXPECTED_HEADER Z = (if length X + 3 \<le> n then Some (length X) else None)"
    unfolding Zt by (rule find_bytes_prefix_stream [OF X pf])
  consider (short) "n < 29" | (nomarker) "29 \<le> n" "n < length X + 3" | (marker) "29 \<le> n" "length X + 3 \<le> n"
    by linarith
  then show ?thesis
  proof cases
    case short
    then have "read_loop_scan Z = (Z, [])" by (subst read_loop_scan_unfold) (simp add: n_def)
    moreover have "pending F Z R" unfolding pending_def using X Z by blast
    ultimately show ?thesis by blast
  next
    case nomarker
    show ?thesis
    proof (cases "n = 29")
      case True
      then have "read_loop_scan Z = (Z, [])" using fz nomarker
        by (subst read_loop_scan_unfold) (simp add: n_def)
      moreover have "pending F Z R" unfolding pending_def using X Z by blast
      ultimately show ?thesis by blast
    next
      case False
      with nomarker have n29: "29 < n" by simp
      then have s: "read_loop_scan Z = (drop (n - 28) Z, [])" using fz nomarker
        by (subst read_loop_scan_unfold) (simp add: n_def)
      have k: "n - 28 < length X" using nomarker n29 by linarith
      have "drop (n - 28) Z @ R = drop (n - 28) (Z @ R)" using n29 by (simp add: n_def)
      also have "\<dots> = drop (n - 28) X @ F" using k Z(1) by simp
      finally have e: "drop (n - 28) Z @ R = drop (n - 28) X @ F" .
      have "last (drop (n - 28) X) = last X" using k by (simp add: last_drop)
      moreover have "X \<noteq> []" using k by auto
      ultimately have la: "last (drop (n - 28) X) \<noteq> 0xD2" using X(2) by simp
      have "length (drop (n - 28) Z) < length (drop (n - 28) X) + 29" using n29 k by (simp add: n_def)
      with e la find_bytes_drop_None [OF X(1), of "n - 28"]
      have "pending F (drop (n - 28) Z) R" unfolding pending_def by blast
      with s show ?thesis by blast
    qed
  next
    case marker
    have lt: "n - length X < 29" using Z(2) marker by (simp add: n_def) 
    have s: "read_loop_scan Z = (drop (length X) Z, [])" using fz marker lt
      by (subst read_loop_scan_unfold) (simp add: n_def)
    have "drop (length X) Z @ R = drop (length X) (Z @ R)" using marker by (simp add: n_def)
    also have "\<dots> = [] @ F" using Z(1) by simp
    finally have e: "drop (length X) Z @ R = [] @ F" .
    have "find_bytes EXPECTED_HEADER [] = None" by (simp add: EXPECTED_HEADER_def)
    moreover have "length (drop (length X) Z) < length ([]::byte list) + 29" using lt by (simp add: n_def)
    ultimately have "pending F (drop (length X) Z) R" unfolding pending_def using e by blast
    with s show ?thesis by blast
  qed
qed

lemma read_loop_pending:
  assumes F: "valid_frame F" "parse_packet F = Inr packet"
  shows "pending F B (concat chunks) \<Longrightarrow> read_loop B chunks = ([], [OnPacket F packet])"
proof (induction chunks arbitrary: B)
  case Nil
  then obtain X where "B = X @ F" "length B < length X + 29" by (auto simp: pending_def)
  with F(1) show ?case by (simp add: valid_frame_def)
next
  case (Cons c cs)
  show ?case
  proof (cases "c = []")
    case True
    with Cons.prems have "pending F B (concat cs)" by simp
    from Cons.IH [OF this] True show ?thesis by (simp add: read_loop_iteration_def)
  next
    case False
    from Cons.prems obtain X where X: "(B @ c) @ concat cs = X @ F"
      "find_bytes EXPECTED_HEADER X = None" "X = [] \<or> last X \<noteq> 0xD2"
      by (auto simp: pending_def)
    have l: "length F = 29" using F(1) by (simp add: valid_frame_def)
    have le: "length (B @ c) \<le> length X + 29"
    proof -
      have "length ((B @ c) @ concat cs) = length (X @ F)" using X(1) by simp
      then show ?thesis using l by simp
    qed
    show ?thesis
    proof (cases "length (B @ c) = length X + 29")
      case True
      with X(1) l have "B @ c = X @ F" "concat cs = []" by (auto simp: append_eq_conv_conj)
      then show ?thesis
        using False scan_complete [OF X(2,3) F] read_loop_empty_chunks [of cs "[]"]
        by (simp add: read_loop_iteration_def)
    next
      case False
      with le have "length (B @ c) < length X + 29" by simp
      from scan_pending [OF X(2,3) F(1) X(1) this]
      obtain Z' where Z': "read_loop_scan (B @ c) = (Z', [])" "pending F Z' (concat cs)" by blast
      from Cons.IH [OF Z'(2)] Z'(1) \<open>c \<noteq> []\<close> show ?thesis
        by (simp add: read_loop_iteration_def)
    qed
  qed
qed

text \<open>
  C8. After a pass of the synchronizer over newly arrived bytes, an accumulator without
  the marker holds at most 29 bytes; when the marker is not found and the accumulator is
  longer than 29 bytes, the pass keeps exactly its last 28 bytes and emits nothing.
\<close>

theorem accumulator_bounded:
  "(chunk \<noteq> [] \<and> find_bytes EXPECTED_HEADER (fst (read_loop_iteration buffer chunk)) = None
      \<longrightarrow> length (fst (read_loop_iteration buffer chunk)) \<le> 29)
   \<and> (chunk \<noteq> [] \<and> find_bytes EXPECTED_HEADER (buffer @ chunk) = None
        \<and> length (buffer @ chunk) > 29
      \<longrightarrow> read_loop_iteration buffer chunk
            = (drop (length (buffer @ chunk) - 28) (buffer @ chunk), [])
          \<and> length (fst (read_loop_iteration buffer chunk)) = 28)"
proof (intro conjI impI)
  assume "chunk \<noteq> [] \<and> find_bytes EXPECTED_HEADER (fst (read_loop_iteration buffer chunk)) = None"
  then show "length (fst (read_loop_iteration buffer chunk)) \<le> 29"
    using scan_length [of "buffer @ chunk"] by (simp add: read_loop_iteration_def)
next
  assume a: "chunk \<noteq> [] \<and> find_bytes EXPECTED_HEADER (buffer @ chunk) = None
        \<and> length (buffer @ chunk) > 29"
  then show "read_loop_iteration buffer chunk
      = (drop (length (buffer @ chunk) - 28) (buffer @ chunk), [])"
    by (simp add: read_loop_iteration_def read_loop_scan_unfold [of "buffer @ chunk"])
  with a show "length (fst (read_loop_iteration buffer chunk)) = 28"
    by simp
qed

theorem accumulator_bounded_witness:
  "read_loop_iteration [1, 2] (replicate 40 7) = (replicate 28 7, [])
   \<and> length (fst (read_loop_iteration [1, 2] (replicate 40 7))) \<le> 29"
proof -
  have f: "find_bytes EXPECTED_HEADER ([1, 2] @ replicate 40 7) = None"
    by (rule find_bytes_no_D2) simp
  have g: "find_bytes EXPECTED_HEADER (replicate 28 7) = None"
    by (rule find_bytes_no_D2) simp
  from accumulator_bounded [of "replicate 40 7" "[1, 2]"] f g show ?thesis
    by simp
qed

text \<open>
  C2, as the code has it. Garbage \<open>G\<close> without the marker that moreover does not end in
  the byte D2, followed by one valid frame \<open>F\<close> and cut into reads in any way, from an
  empty accumulator: \<open>F\<close> is the only packet extracted, it is decoded and handed to
  \<open>on_packet\<close>, nothing else is reported, and the accumulator ends empty.
\<close>

theorem one_frame_after_garbage:
  assumes "find_bytes EXPECTED_HEADER G = None" "G = [] \<or> last G \<noteq> 0xD2"
    and "valid_frame F" and "concat chunks = G @ F"
  shows "\<exists>packet. parse_packet F = Inr packet \<and> read_loop [] chunks = ([], [OnPacket F packet])"
proof -
  from valid_frame_parses [OF assms(3)] obtain packet where p: "parse_packet F = Inr packet" by blast
  have "pending F [] (concat chunks)" unfolding pending_def using assms by auto
  from read_loop_pending [OF assms(3) p this] p show ?thesis by blast
qed

theorem one_frame_after_garbage_witness:
  "find_bytes EXPECTED_HEADER [0x01, 0xD2, 0x03] = None
   \<and> valid_frame example_frame
   \<and> (\<exists>packet. parse_packet example_frame = Inr packet
        \<and> read_loop [] [[0x01, 0xD2], [0x03, 0xD2, 0xD2], drop 2 example_frame]
            = ([], [OnPacket example_frame packet]))"
proof -
  have g: "find_bytes EXPECTED_HEADER [0x01, 0xD2, 0x03] = None"
    by (simp add: EXPECTED_HEADER_def)
  have v: "valid_frame example_frame"
    by (simp add: valid_frame_def example_frame_def HEADER_def)
  have c: "concat [[0x01, 0xD2], [0x03, 0xD2, 0xD2], drop 2 example_frame]
      = [0x01, 0xD2, 0x03] @ example_frame"
    by (simp add: example_frame_def)
  from one_frame_after_garbage [OF g _ v c] g v show ?thesis by simp
qed

text \<open>
  C2 as stated fails: the single garbage byte D2 contains no marker, yet together with the
  frame's own marker it makes the marker appear one byte early. The 29 bytes cut out there
  are not the frame, the decoder rejects them (type byte D2), and nothing is handed to
  \<open>on_packet\<close>; the frame's last byte stays behind in the accumulator.
\<close>

theorem garbage_ending_in_D2_counterexample:
  "find_bytes EXPECTED_HEADER [0xD2] = None
   \<and> valid_frame example_frame
   \<and> read_loop [] [[0xD2] @ example_frame]
       = ([0x2A], [ParseWarning (0xD2 # butlast example_frame)])"
  by (simp add: EXPECTED_HEADER_def valid_frame_def example_frame_def HEADER_def
      read_loop_iteration_def read_loop_scan.simps PACKET_LENGTH_def parse_packet_cases Let_def)

section \<open>Properties of the rolling channel buffer\<close>

lemma buffer_ok_init: "1 \<le> c \<Longrightarrow> buffer_ok (EmgRingBuffer_init m c)"
  by (simp add: buffer_ok_def EmgRingBuffer_init_def list_all_iff)

lemma buffer_ok_append: "buffer_ok b \<Longrightarrow> buffer_ok (snd (EmgRingBuffer_append f values b))"
  by (auto simp: buffer_ok_def EmgRingBuffer_append_def Let_def list_all_iff dest!: set_zip_leftD)

lemma buffer_ok_clear: "buffer_ok b \<Longrightarrow> buffer_ok (EmgRingBuffer_clear b)"
  by (auto simp: buffer_ok_def EmgRingBuffer_clear_def list_all_iff)

lemma buffer_ok_appends: "buffer_ok b \<Longrightarrow> buffer_ok (appends f rows b)"
  unfolding appends_def by (induction rows arbitrary: b) (auto simp: buffer_ok_append)

lemma appends_snoc:
  "appends f (rows @ [r]) b = snd (EmgRingBuffer_append f r (appends f rows b))"
  by (simp add: appends_def)

lemma mod_neq_close:
  fixes k n c :: nat
  assumes "k < n" "n < k + c"
  shows "k mod c \<noteq> n mod c"
proof
  assume "k mod c = n mod c"
  then have "c dvd n - k" using assms(1) by (metis mod_eq_dvd_iff_nat less_imp_le)
  moreover have "0 < n - k" "n - k < c" using assms by simp_all
  ultimately show False by (auto dest: dvd_imp_le)
qed

lemma ring_inv_init: "ring_inv f m c [] (EmgRingBuffer_init m c)" if "1 \<le> c"
  using that by (simp add: ring_inv_def EmgRingBuffer_init_def)

lemma ring_inv_step:
  assumes inv: "ring_inv f m c rows b" and c: "1 \<le> c" and r: "length r = m"
  shows "ring_inv f m c (rows @ [r]) (snd (EmgRingBuffer_append f r b))"
proof -
  let ?n = "length rows"
  let ?b' = "snd (EmgRingBuffer_append f r b)"
  from inv have ch: "channels b = m" and cap: "capacity b = c" and ld: "length (data b) = m"
    and lr: "\<forall>j<m. length (data b ! j) = c" and ix: "index b = ?n mod c"
    and fl: "filled b = (c \<le> ?n)"
    and dt: "\<forall>j<m. \<forall>k<?n. ?n \<le> k + c \<longrightarrow> data b ! j ! (k mod c) = f (rows ! k ! j)"
    by (simp_all add: ring_inv_def)
  have ixc: "index b < capacity b" using ix cap c by simp
  have b': "?b' = b\<lparr>data := map (\<lambda>(row, v). row[?n mod c := f v]) (zip (data b) r),
      index := Suc ?n mod c, filled := (if Suc ?n mod c = 0 then True else filled b)\<rparr>"
    using r ch ixc ix cap by (simp add: EmgRingBuffer_append_def Let_def mod_Suc_eq)
  have d': "\<And>j. j < m \<Longrightarrow> data ?b' ! j = (data b ! j)[?n mod c := f (r ! j)]"
    using ld r by (simp add: b')
  have f': "filled ?b' = (c \<le> Suc ?n)"
  proof (cases "Suc ?n mod c = 0")
    case True
    then have "c dvd Suc ?n" by auto
    then have "c \<le> Suc ?n" by (auto dest: dvd_imp_le)
    with True show ?thesis by (simp add: b')
  next
    case False
    then have "Suc ?n \<noteq> c" by auto
    with False fl show ?thesis by (auto simp: b')
  qed
  have dt': "\<forall>j<m. \<forall>k<Suc ?n. Suc ?n \<le> k + c \<longrightarrow> data ?b' ! j ! (k mod c) = f ((rows @ [r]) ! k ! j)"
  proof (intro allI impI)
    fix j k assume j: "j < m" and k: "k < Suc ?n" and kc: "Suc ?n \<le> k + c"
    have lj: "length (data b ! j) = c" using lr j by simp
    show "data ?b' ! j ! (k mod c) = f ((rows @ [r]) ! k ! j)"
    proof (cases "k = ?n")
      case True
      then show ?thesis using d' [OF j] lj c by (simp add: nth_append)
    next
      case False
      with k have kn: "k < ?n" by simp
      have "k mod c \<noteq> ?n mod c" using mod_neq_close [of k ?n c] kn kc by simp
      then have "data ?b' ! j ! (k mod c) = data b ! j ! (k mod c)"
        using d' [OF j] by simp
      also have "\<dots> = f (rows ! k ! j)" using dt j kn kc by simp
      finally show ?thesis using kn by (simp add: nth_append)
    qed
  qed
  show ?thesis
    unfolding ring_inv_def
    using ch cap ld lr f' dt' r by (simp add: b')
qed

lemma ring_inv_appends:
  assumes "1 \<le> c" "\<forall>r\<in>set rows. length r = m"
  shows "ring_inv f m c rows (appends f rows (EmgRingBuffer_init m c))"
  using assms(2)
proof (induction rows rule: rev_induct)
  case Nil
  show ?case using ring_inv_init [OF assms(1)] by (simp add: appends_def)
next
  case (snoc r rows)
  then have "ring_inv f m c rows (appends f rows (EmgRingBuffer_init m c))" "length r = m"
    by simp_all
  from ring_inv_step [OF this(1) assms(1) this(2)] show ?case by (simp add: appends_snoc)
qed

lemma snapshot_channel:
  assumes inv: "ring_inv f m c rows b" and c: "1 \<le> c" and j: "j < m"
  shows "EmgRingBuffer_snapshot b ! j
    = map (\<lambda>r. f (r ! j)) (drop (length rows - min (length rows) c) rows)"
proof -
  let ?n = "length rows"
  from inv have ld: "length (data b) = m"
    and lr: "\<forall>j<m. length (data b ! j) = c" and ix: "index b = ?n mod c"
    and fl: "filled b = (c \<le> ?n)"
    and dt: "\<forall>j<m. \<forall>k<?n. ?n \<le> k + c \<longrightarrow> data b ! j ! (k mod c) = f (rows ! k ! j)"
    by (simp_all add: ring_inv_def)
  have lj: "length (data b ! j) = c" using lr j by simp
  show ?thesis
  proof (cases "c \<le> ?n")
    case False
    then have n: "?n < c" by simp
    have s: "EmgRingBuffer_snapshot b ! j = take ?n (data b ! j)"
      using fl ix n ld j by (simp add: EmgRingBuffer_snapshot_def)
    have "take ?n (data b ! j) = map (\<lambda>r. f (r ! j)) rows"
    proof (rule nth_equalityI)
      show "length (take ?n (data b ! j)) = length (map (\<lambda>r. f (r ! j)) rows)"
        using lj n by simp
    next
      fix t assume "t < length (take ?n (data b ! j))"
      then have t: "t < ?n" by simp
      then have "data b ! j ! (t mod c) = f (rows ! t ! j)" using dt j n by simp
      then show "take ?n (data b ! j) ! t = map (\<lambda>r. f (r ! j)) rows ! t"
        using t n by simp
    qed
    with s n show ?thesis by simp
  next
    case True
    let ?i = "?n mod c"
    have ic: "?i < c" using c by simp
    have s: "EmgRingBuffer_snapshot b ! j = drop ?i (data b ! j) @ take ?i (data b ! j)"
      using fl ix True ld j by (simp add: EmgRingBuffer_snapshot_def)
    have "drop ?i (data b ! j) @ take ?i (data b ! j) = map (\<lambda>r. f (r ! j)) (drop (?n - c) rows)"
    proof (rule nth_equalityI)
      show "length (drop ?i (data b ! j) @ take ?i (data b ! j))
          = length (map (\<lambda>r. f (r ! j)) (drop (?n - c) rows))"
        using lj ic True by simp
    next
      fix t assume "t < length (drop ?i (data b ! j) @ take ?i (data b ! j))"
      then have t: "t < c" using lj ic by simp
      let ?k = "?n - c + t"
      have k: "?k < ?n" "?n \<le> ?k + c" using t True by simp_all
      have km: "?k mod c = (?i + t) mod c"
      proof -
        have "(?n - c + t + c) mod c = (?n + t) mod c" using True by simp
        then have "?k mod c = (?n + t) mod c" by simp
        then show ?thesis by (simp add: mod_add_left_eq)
      qed
      have lhs: "(drop ?i (data b ! j) @ take ?i (data b ! j)) ! t = data b ! j ! ((?i + t) mod c)"
      proof (cases "t < c - ?i")
        case True
        then have "?i + t < c" by simp
        then show ?thesis using True lj by (simp add: nth_append)
      next
        case False
        then have ge: "c \<le> ?i + t" by simp
        have "?i + t - c < c" using ic t by arith
        then have "(?i + t) mod c = ?i + t - c" using ge
          by (metis le_add_diff_inverse2 mod_add_self2 mod_less)
        moreover have "t - (c - ?i) = ?i + t - c" using ic False by simp
        ultimately show ?thesis using False lj ic t by (simp add: nth_append)
      qed
      have "data b ! j ! (?k mod c) = f (rows ! ?k ! j)" using dt j k by blast
      with lhs km show "(drop ?i (data b ! j) @ take ?i (data b ! j)) ! t
          = map (\<lambda>r. f (r ! j)) (drop (?n - c) rows) ! t"
        using t True by (simp add: add.commute)
    qed
    with s True show ?thesis by simp
  qed
qed

lemma snapshot_length: "length (EmgRingBuffer_snapshot b) = length (data b)"
  by (simp add: EmgRingBuffer_snapshot_def)

text \<open>
  The snapshot after any appends of well-shaped rows, for any conversion \<open>f\<close> on storing.
\<close>

lemma snapshot_last_rows_general:
  assumes "1 \<le> c" and "\<forall>r\<in>set rows. length r = m"
  shows "length (EmgRingBuffer_snapshot (appends f rows (EmgRingBuffer_init m c))) = m
    \<and> (\<forall>j<m. EmgRingBuffer_snapshot (appends f rows (EmgRingBuffer_init m c)) ! j
          = map (\<lambda>r. f (r ! j)) (drop (length rows - min (length rows) c) rows)
        \<and> length (EmgRingBuffer_snapshot (appends f rows (EmgRingBuffer_init m c)) ! j)
          = min (length rows) c)
    \<and> (\<forall>t<min (length rows) c.
          map (\<lambda>ch. ch ! t) (EmgRingBuffer_snapshot (appends f rows (EmgRingBuffer_init m c)))
          = map f (rows ! (length rows - min (length rows) c + t)))"
proof -
  let ?b = "appends f rows (EmgRingBuffer_init m c)"
  let ?d = "length rows - min (length rows) c"
  have inv: "ring_inv f m c rows ?b" by (rule ring_inv_appends [OF assms])
  then have "length (data ?b) = m" by (simp add: ring_inv_def)
  then have len: "length (EmgRingBuffer_snapshot ?b) = m" by (simp add: snapshot_length)
  have chan: "\<forall>j<m. EmgRingBuffer_snapshot ?b ! j = map (\<lambda>r. f (r ! j)) (drop ?d rows)
        \<and> length (EmgRingBuffer_snapshot ?b ! j) = min (length rows) c"
  proof (intro allI impI)
    fix j assume j: "j < m"
    from snapshot_channel [OF inv assms(1) j]
    show "EmgRingBuffer_snapshot ?b ! j = map (\<lambda>r. f (r ! j)) (drop ?d rows)
        \<and> length (EmgRingBuffer_snapshot ?b ! j) = min (length rows) c"
      by simp
  qed
  have samp: "\<forall>t<min (length rows) c.
      map (\<lambda>ch. ch ! t) (EmgRingBuffer_snapshot ?b) = map f (rows ! (?d + t))"
  proof (intro allI impI)
    fix t assume t: "t < min (length rows) c"
    then have dt: "?d + t < length rows" by arith
    then have "rows ! (?d + t) \<in> set rows" by (rule nth_mem)
    with assms(2) have lr: "length (rows ! (?d + t)) = m" by blast
    show "map (\<lambda>ch. ch ! t) (EmgRingBuffer_snapshot ?b) = map f (rows ! (?d + t))"
    proof (rule nth_equalityI)
      show "length (map (\<lambda>ch. ch ! t) (EmgRingBuffer_snapshot ?b))
          = length (map f (rows ! (?d + t)))"
        using len lr by simp
    next
      fix j assume "j < length (map (\<lambda>ch. ch ! t) (EmgRingBuffer_snapshot ?b))"
      then have j: "j < m" using len by simp
      with chan have "EmgRingBuffer_snapshot ?b ! j = map (\<lambda>r. f (r ! j)) (drop ?d rows)"
        by blast
      then show "map (\<lambda>ch. ch ! t) (EmgRingBuffer_snapshot ?b) ! j = map f (rows ! (?d + t)) ! j"
        using j len lr t by simp
    qed
  qed
  from len chan samp show ?thesis by blast
qed

lemma round_half_even_int: "round_half_even (real_of_int k) = k"
  by (simp add: round_half_even_def)

lemma floor_log2_eq:
  assumes "2 ^ n \<le> x" "x < 2 ^ Suc n"
  shows "\<lfloor>log 2 (x::real)\<rfloor> = int n"
proof -
  have "0 < (2::real) ^ n" by simp
  with assms(1) have x: "0 < x" by linarith
  have "2 powr real_of_int (int n) \<le> x \<and> x < 2 powr real_of_int (int n + 1)"
    using assms by (simp add: powr_realpow powr_add)
  then show ?thesis using floor_log_eq_powr_iff [of x 2 "int n"] x by simp
qed

lemma to_float32_2_24_plus_1: "to_float32 16777217 = F32 16777216"
proof -
  have e: "\<lfloor>log 2 (16777217::real)\<rfloor> = 24"
    using floor_log2_eq [of 24 16777217] by simp
  have q: "float32_quantum 16777217 = 2"
    by (simp add: float32_quantum_def e)
  have r: "round_half_even (16777217 / 2) = 8388608"
    by (simp add: round_half_even_def)
  show ?thesis
    by (simp add: to_float32_def q r)
qed

lemma to_float32_int:
  assumes "\<bar>v\<bar> < 2 ^ 24"
  shows "to_float32 (real_of_int v) = F32 (real_of_int v)"
proof (cases "v = 0")
  case True
  then show ?thesis by (simp add: to_float32_def)
next
  case False
  let ?x = "real_of_int v"
  define e where "e = \<lfloor>log 2 \<bar>?x\<bar>\<rfloor>"
  have a1: "1 \<le> \<bar>?x\<bar>" using False by (simp add: abs_if)
  have a2: "\<bar>?x\<bar> < 2 ^ 24" using assms by (metis of_int_abs of_int_less_numeral_power_cancel_iff)
  have "0 \<le> log 2 \<bar>?x\<bar>" using a1 by simp
  then have e0: "0 \<le> e" by (simp add: e_def)
  have "log 2 \<bar>?x\<bar> < 24" using a1 a2 by (simp add: log_less_iff)
  then have e23: "e \<le> 23" unfolding e_def by linarith
  define k where "k = nat (23 - e)"
  have ek: "real_of_int (max e (- 126) - 23) = - real k" using e0 e23 by (simp add: k_def)
  have q: "float32_quantum ?x = 1 / 2 ^ k"
    unfolding float32_quantum_def e_def [symmetric] ek
    by (simp add: powr_minus_divide powr_realpow)
  have "?x / float32_quantum ?x = real_of_int (v * 2 ^ k)" by (simp add: q)
  then have rd: "round_half_even (?x / float32_quantum ?x) = v * 2 ^ k"
    by (simp only: round_half_even_int)
  have r: "real_of_int (round_half_even (?x / float32_quantum ?x)) * float32_quantum ?x = ?x"
    unfolding rd by (simp add: q)
  have "\<bar>?x\<bar> < 2 ^ 128" using a2 by (rule less_trans) simp
  then show ?thesis using False r by (simp add: to_float32_def Let_def)
qed

text \<open>
  C5, as the code has it. In a buffer of capacity \<open>c \<ge> 1\<close> and \<open>m\<close> channels, after \<open>n\<close>
  appends of rows of length \<open>m\<close>, the snapshot has one row per channel; the row of channel
  \<open>j\<close> holds \<open>min n c\<close> entries, which are the entries \<open>j\<close> of the last \<open>min n c\<close> appended
  rows, oldest first, each rounded to float32. Read by samples: column \<open>t\<close> of the
  snapshot is the appended row number \<open>n - min n c + t\<close>, rounded to float32; it is that
  row itself when every appended value is a float32 value, as the decoder's 24-bit
  integers are (\<open>to_float32_int\<close>).
\<close>

theorem snapshot_last_rows:
  assumes "1 \<le> c" and "\<forall>r\<in>set rows. length r = m"
  shows "length (EmgRingBuffer_snapshot (appends to_float32 rows (EmgRingBuffer_init m c))) = m
    \<and> (\<forall>j<m. EmgRingBuffer_snapshot (appends to_float32 rows (EmgRingBuffer_init m c)) ! j
          = map (\<lambda>r. to_float32 (r ! j)) (drop (length rows - min (length rows) c) rows)
        \<and> length (EmgRingBuffer_snapshot (appends to_float32 rows (EmgRingBuffer_init m c)) ! j)
          = min (length rows) c)
    \<and> (\<forall>t<min (length rows) c.
          map (\<lambda>ch. ch ! t)
            (EmgRingBuffer_snapshot (appends to_float32 rows (EmgRingBuffer_init m c)))
          = map to_float32 (rows ! (length rows - min (length rows) c + t)))
    \<and> ((\<forall>r\<in>set rows. \<forall>v\<in>set r. to_float32 v = F32 v) \<longrightarrow>
         (\<forall>t<min (length rows) c.
            map (\<lambda>ch. ch ! t)
              (EmgRingBuffer_snapshot (appends to_float32 rows (EmgRingBuffer_init m c)))
            = map F32 (rows ! (length rows - min (length rows) c + t))))"
proof -
  let ?s = "EmgRingBuffer_snapshot (appends to_float32 rows (EmgRingBuffer_init m c))"
  let ?d = "length rows - min (length rows) c"
  note g = snapshot_last_rows_general [OF assms, where f = to_float32]
  from g have len: "length ?s = m" by blast
  from g have chan: "\<forall>j<m. ?s ! j = map (\<lambda>r. to_float32 (r ! j)) (drop ?d rows)
        \<and> length (?s ! j) = min (length rows) c"
    by blast
  from g have samp: "\<forall>t<min (length rows) c.
      map (\<lambda>ch. ch ! t) ?s = map to_float32 (rows ! (?d + t))"
    by blast
  have exact: "(\<forall>r\<in>set rows. \<forall>v\<in>set r. to_float32 v = F32 v) \<longrightarrow>
      (\<forall>t<min (length rows) c. map (\<lambda>ch. ch ! t) ?s = map F32 (rows ! (?d + t)))"
  proof (intro impI allI)
    fix t assume id: "\<forall>r\<in>set rows. \<forall>v\<in>set r. to_float32 v = F32 v"
      and t: "t < min (length rows) c"
    then have "?d + t < length rows" by arith
    then have "rows ! (?d + t) \<in> set rows" by (rule nth_mem)
    with id have "map to_float32 (rows ! (?d + t)) = map F32 (rows ! (?d + t))"
      by (intro map_cong) auto
    with samp t show "map (\<lambda>ch. ch ! t) ?s = map F32 (rows ! (?d + t))" by simp
  qed
  from len chan samp exact show ?thesis by blast
qed

theorem snapshot_last_rows_witness:
  "EmgRingBuffer_snapshot
     (appends to_float32 [[1, 2], [3, 4], [5, 6], [7, 8]] (EmgRingBuffer_init 2 3))
   = [[F32 3, F32 5, F32 7], [F32 4, F32 6, F32 8]]"
proof -
  let ?rows = "[[1, 2], [3, 4], [5, 6], [7, 8 :: real]]"
  let ?s = "EmgRingBuffer_snapshot (appends to_float32 ?rows (EmgRingBuffer_init 2 3))"
  have h: "\<forall>r\<in>set ?rows. length r = 2" by simp
  have v: "to_float32 3 = F32 3" "to_float32 4 = F32 4" "to_float32 5 = F32 5"
    "to_float32 6 = F32 6" "to_float32 7 = F32 7" "to_float32 8 = F32 8"
    using to_float32_int [of 3] to_float32_int [of 4] to_float32_int [of 5]
      to_float32_int [of 6] to_float32_int [of 7] to_float32_int [of 8]
    by simp_all
  from snapshot_last_rows [where c = 3 and rows = ?rows and m = 2, OF _ h]
  have l: "length ?s = 2"
    and r: "\<forall>j<2. ?s ! j = map (\<lambda>r. to_float32 (r ! j)) (drop 1 ?rows)"
    by simp_all
  from r v have e: "?s ! 0 = [F32 3, F32 5, F32 7]" "?s ! 1 = [F32 4, F32 6, F32 8]"
    by simp_all
  show ?thesis
  proof (rule nth_equalityI)
    show "length ?s = length [[F32 3, F32 5, F32 7], [F32 4, F32 6, F32 8]]" using l by simp
  next
    fix i assume "i < length ?s"
    then have "i = 0 \<or> i = 1" using l by auto
    then show "?s ! i = [[F32 3, F32 5, F32 7], [F32 4, F32 6, F32 8]] ! i" using e by auto
  qed
qed

text \<open>
  C5 as stated fails: the value 16777217 (2 ^ 24 + 1, a Python float) is not a float32
  value; appended to a buffer of one channel and capacity 1, it is stored as 16777216, and
  the snapshot returns 16777216, not the appended row.
\<close>

theorem snapshot_float32_counterexample:
  "EmgRingBuffer_snapshot (appends to_float32 [[16777217]] (EmgRingBuffer_init 1 1))
     = [[F32 16777216]]
   \<and> F32 16777216 \<noteq> F32 16777217"
  by (simp add: appends_def EmgRingBuffer_append_def EmgRingBuffer_init_def
      EmgRingBuffer_snapshot_def to_float32_2_24_plus_1 Let_def)

text \<open>
  C9, as the code has it. In a buffer of positive capacity (as built by the constructor
  and kept by \<open>append\<close> and \<open>clear\<close>), \<open>append\<close> raises exactly when the number of values
  differs from the channel count, the error is ValueError, and the buffer is unchanged.
  That a raising \<open>append\<close> leaves the buffer unchanged holds for every buffer.
\<close>

theorem append_raises_iff:
  assumes "buffer_ok b"
  shows "((\<exists>e. fst (EmgRingBuffer_append f values b) = Inl e) \<longleftrightarrow> length values \<noteq> channels b)
    \<and> (length values \<noteq> channels b \<longrightarrow> EmgRingBuffer_append f values b = (Inl ValueError, b))
    \<and> (\<forall>b' :: 'a EmgRingBuffer. \<forall>e. fst (EmgRingBuffer_append f values b') = Inl e
          \<longrightarrow> snd (EmgRingBuffer_append f values b') = b')"
  using assms by (auto simp: EmgRingBuffer_append_def buffer_ok_def Let_def)

theorem append_raises_iff_witness:
  "buffer_ok (EmgRingBuffer_init 2 3 :: int EmgRingBuffer)
   \<and> EmgRingBuffer_append (\<lambda>x. x) [5] (EmgRingBuffer_init 2 3 :: int EmgRingBuffer)
       = (Inl ValueError, EmgRingBuffer_init 2 3)
   \<and> fst (EmgRingBuffer_append (\<lambda>x. x) [5, 6] (EmgRingBuffer_init 2 3 :: int EmgRingBuffer))
       = Inr ()"
proof -
  have ok: "buffer_ok (EmgRingBuffer_init 2 3 :: int EmgRingBuffer)"
    by (rule buffer_ok_init) simp
  have c: "channels (EmgRingBuffer_init 2 3 :: int EmgRingBuffer) = 2"
    by (simp add: EmgRingBuffer_init_def)
  from append_raises_iff [OF ok, of "\<lambda>x. x" "[5]"] c
  have a: "EmgRingBuffer_append (\<lambda>x. x) [5] (EmgRingBuffer_init 2 3 :: int EmgRingBuffer)
       = (Inl ValueError, EmgRingBuffer_init 2 3)"
    by simp
  from append_raises_iff [OF ok, of "\<lambda>x. x" "[5, 6]"] c
  have "\<not> (\<exists>e. fst (EmgRingBuffer_append (\<lambda>x. x) [5, 6]
      (EmgRingBuffer_init 2 3 :: int EmgRingBuffer)) = Inl e)"
    by simp
  then have b: "fst (EmgRingBuffer_append (\<lambda>x. x) [5, 6]
      (EmgRingBuffer_init 2 3 :: int EmgRingBuffer)) = Inr ()"
    by (cases "fst (EmgRingBuffer_append (\<lambda>x. x) [5, 6]
      (EmgRingBuffer_init 2 3 :: int EmgRingBuffer))") auto
  from ok a b show ?thesis by blast
qed

text \<open>
  C9 as stated fails for a buffer built with capacity 0: the array has no column, so the
  column assignment raises IndexError although the number of values is the channel count.
\<close>

theorem append_capacity_zero_counterexample:
  "length [1 :: int] = channels (EmgRingBuffer_init 1 0 :: int EmgRingBuffer)
   \<and> EmgRingBuffer_append (\<lambda>x. x) [1 :: int] (EmgRingBuffer_init 1 0)
       = (Inl IndexError, EmgRingBuffer_init 1 0)"
  by (simp add: EmgRingBuffer_append_def EmgRingBuffer_init_def)

section \<open>Properties of the signal quality classifier\<close>

subsection \<open>Calibration\<close>

lemma enumerate_take_Suc:
  "n < length xs \<Longrightarrow> enumerate 0 (take (Suc n) xs) = enumerate 0 (take n xs) @ [(n, xs ! n)]"
  by (simp add: take_Suc_conv_app_nth enumerate_append_eq)

lemma calibration_channel_fields:
  "packet_count (calibration_channel w p) = packet_count w"
  "baseline_initialized (calibration_channel w p) = baseline_initialized w"
  "last_baseline_reset (calibration_channel w p) = last_baseline_reset w"
  "channel_current_state (calibration_channel w p) = channel_current_state w"
  "channel_indicators (calibration_channel w p) = channel_indicators w"
  "length (channel_baseline (calibration_channel w p)) = length (channel_baseline w)"
  "length (channel_noise_level (calibration_channel w p)) = length (channel_noise_level w)"
  "length (channel_last_values (calibration_channel w p)) = length (channel_last_values w)"
  by (auto simp: calibration_channel_def Let_def split: prod.splits)

lemma calibration_channel_nth:
  assumes "i < length (channel_baseline w)" "i < length (channel_noise_level w)"
    "i < length (channel_last_values w)"
  shows "channel_baseline (calibration_channel w (j, v)) ! i
      = (if i = j then 0.1 * v + 0.9 * channel_baseline w ! i else channel_baseline w ! i)"
    and "channel_noise_level (calibration_channel w (j, v)) ! i
      = (if i = j \<and> packet_count w > 50
         then channel_noise_level w ! i
              + (\<bar>v - (0.1 * v + 0.9 * channel_baseline w ! i)\<bar> * 0.7
                 + \<bar>v - channel_last_values w ! i\<bar> * 0.3)
         else channel_noise_level w ! i)"
    and "channel_last_values (calibration_channel w (j, v)) ! i
      = (if i = j then v else channel_last_values w ! i)"
  using assms by (auto simp: calibration_channel_def Let_def nth_list_update)

lemma calibration_fold_upto:
  assumes "length vs \<le> length (channel_baseline w)" "length vs \<le> length (channel_noise_level w)"
    "length vs \<le> length (channel_last_values w)"
  shows "n \<le> length vs \<Longrightarrow>
    calibrated_upto w vs n (foldl calibration_channel w (enumerate 0 (take n vs)))"
proof (induction n)
  case 0
  show ?case by (simp add: calibrated_upto_def)
next
  case (Suc n)
  let ?w' = "foldl calibration_channel w (enumerate 0 (take n vs))"
  from Suc have n: "n < length vs" and IH: "calibrated_upto w vs n ?w'" by simp_all
  have f: "foldl calibration_channel w (enumerate 0 (take (Suc n) vs))
      = calibration_channel ?w' (n, vs ! n)"
    using n by (simp add: enumerate_take_Suc)
  from IH have l: "length (channel_baseline ?w') = length (channel_baseline w)"
    "length (channel_noise_level ?w') = length (channel_noise_level w)"
    "length (channel_last_values ?w') = length (channel_last_values w)"
    "packet_count ?w' = packet_count w"
    by (simp_all add: calibrated_upto_def)
  show ?case
    unfolding f calibrated_upto_def
  proof (intro conjI allI impI)
    fix i assume i: "i < length vs"
    then have il: "i < length (channel_baseline ?w')" "i < length (channel_noise_level ?w')"
      "i < length (channel_last_values ?w')" using l assms by simp_all
    from IH i have v: "channel_baseline ?w' ! i
            = (if i < n then 0.1 * vs ! i + 0.9 * channel_baseline w ! i else channel_baseline w ! i)"
      "channel_noise_level ?w' ! i
            = (if i < n \<and> packet_count w > 50
               then channel_noise_level w ! i
                    + (\<bar>vs ! i - (0.1 * vs ! i + 0.9 * channel_baseline w ! i)\<bar> * 0.7
                       + \<bar>vs ! i - channel_last_values w ! i\<bar> * 0.3)
               else channel_noise_level w ! i)"
      "channel_last_values ?w' ! i
            = (if i < n then vs ! i else channel_last_values w ! i)"
      by (simp_all add: calibrated_upto_def)
    show "channel_baseline (calibration_channel ?w' (n, vs ! n)) ! i
        = (if i < Suc n then 0.1 * vs ! i + 0.9 * channel_baseline w ! i else channel_baseline w ! i)"
      unfolding calibration_channel_nth(1) [OF il] using v(1) by (auto simp: less_Suc_eq)
    show "channel_noise_level (calibration_channel ?w' (n, vs ! n)) ! i
            = (if i < Suc n \<and> packet_count w > 50
               then channel_noise_level w ! i
                    + (\<bar>vs ! i - (0.1 * vs ! i + 0.9 * channel_baseline w ! i)\<bar> * 0.7
                       + \<bar>vs ! i - channel_last_values w ! i\<bar> * 0.3)
               else channel_noise_level w ! i)"
      unfolding calibration_channel_nth(2) [OF il] using v l(4) by (auto simp: less_Suc_eq)
    show "channel_last_values (calibration_channel ?w' (n, vs ! n)) ! i
            = (if i < Suc n then vs ! i else channel_last_values w ! i)"
      unfolding calibration_channel_nth(3) [OF il] using v(3) by (auto simp: less_Suc_eq)
  qed (use IH in \<open>simp_all add: calibration_channel_fields calibrated_upto_def\<close>)
qed

lemma calibration_fold:
  assumes "window_ok w" "length vs = EMG_CHANNELS"
  shows "calibrated_upto w vs EMG_CHANNELS (foldl calibration_channel w (enumerate 0 vs))"
  using calibration_fold_upto [of vs w "length vs"] assms by (simp add: window_ok_def)

lemma calibration_step:
  assumes ok: "window_ok w" and ni: "\<not> baseline_initialized w"
    and pc: "packet_count w + 1 \<le> 500" and lv: "length vs = EMG_CHANNELS"
  shows "calibrated_upto (w\<lparr>packet_count := packet_count w + 1\<rparr>) vs EMG_CHANNELS
    (handle_emg_sample w vs)"
proof -
  let ?w1 = "w\<lparr>packet_count := packet_count w + 1\<rparr>"
  have ok1: "window_ok ?w1" using ok by (simp add: window_ok_def)
  have "handle_emg_sample w vs = foldl calibration_channel ?w1 (enumerate 0 vs)"
    using ni pc lv by (simp add: handle_emg_sample_def initialization_samples_def Let_def)
  with calibration_fold [OF ok1 lv] show ?thesis by simp
qed

lemma calibration_run:
  assumes i: "i < EMG_CHANNELS"
  shows "window_ok w \<Longrightarrow> \<not> baseline_initialized w
    \<Longrightarrow> packet_count w + int (length samples) \<le> 500
    \<Longrightarrow> \<forall>s\<in>set samples. length s = EMG_CHANNELS
    \<Longrightarrow> window_ok (foldl handle_emg_sample w samples)
      \<and> \<not> baseline_initialized (foldl handle_emg_sample w samples)
      \<and> packet_count (foldl handle_emg_sample w samples) = packet_count w + int (length samples)
      \<and> channel_current_state (foldl handle_emg_sample w samples) = channel_current_state w
      \<and> channel_noise_level (foldl handle_emg_sample w samples) ! i
          = channel_noise_level w ! i
            + spec_phase_activity (packet_count w) (channel_baseline w ! i)
                (channel_last_values w ! i) (map (\<lambda>s. s ! i) samples)"
proof (induction samples arbitrary: w)
  case Nil
  then show ?case by simp
next
  case (Cons s samples)
  let ?w1 = "handle_emg_sample w s"
  have ls: "length s = EMG_CHANNELS" using Cons.prems(4) by simp
  have pc: "packet_count w + 1 \<le> 500" using Cons.prems(3) by simp
  have cu: "calibrated_upto (w\<lparr>packet_count := packet_count w + 1\<rparr>) s EMG_CHANNELS ?w1"
    by (rule calibration_step [OF Cons.prems(1,2) pc ls])
  have ok1: "window_ok ?w1" using cu Cons.prems(1) by (simp add: calibrated_upto_def window_ok_def)
  have ni1: "\<not> baseline_initialized ?w1" using cu Cons.prems(2) by (simp add: calibrated_upto_def)
  have pc1: "packet_count ?w1 = packet_count w + 1" using cu by (simp add: calibrated_upto_def)
  have st1: "channel_current_state ?w1 = channel_current_state w"
    using cu by (simp add: calibrated_upto_def)
  have ilt: "i < length s" using i ls by simp
  from cu ilt i have b1: "channel_baseline ?w1 ! i = 0.1 * s ! i + 0.9 * channel_baseline w ! i"
    and l1: "channel_last_values ?w1 ! i = s ! i"
    and n1: "channel_noise_level ?w1 ! i
      = (if packet_count w + 1 > 50
         then channel_noise_level w ! i
              + (\<bar>s ! i - (0.1 * s ! i + 0.9 * channel_baseline w ! i)\<bar> * 0.7
                 + \<bar>s ! i - channel_last_values w ! i\<bar> * 0.3)
         else channel_noise_level w ! i)"
    by (simp_all add: calibrated_upto_def)
  have pcn: "packet_count ?w1 + int (length samples) \<le> 500" using pc1 Cons.prems(3) by simp
  have all: "\<forall>s\<in>set samples. length s = EMG_CHANNELS" using Cons.prems(4) by simp
  from Cons.IH [OF ok1 ni1 pcn all]
  have IH: "window_ok (foldl handle_emg_sample ?w1 samples)"
    "\<not> baseline_initialized (foldl handle_emg_sample ?w1 samples)"
    "packet_count (foldl handle_emg_sample ?w1 samples) = packet_count ?w1 + int (length samples)"
    "channel_current_state (foldl handle_emg_sample ?w1 samples) = channel_current_state ?w1"
    "channel_noise_level (foldl handle_emg_sample ?w1 samples) ! i
          = channel_noise_level ?w1 ! i
            + spec_phase_activity (packet_count ?w1) (channel_baseline ?w1 ! i)
                (channel_last_values ?w1 ! i) (map (\<lambda>s. s ! i) samples)"
    by simp_all
  show ?case
    using IH pc1 st1 b1 l1 n1 by (simp add: Let_def algebra_simps)
qed

lemma divide_fold_nth:
  "n \<le> length nl \<Longrightarrow>
   length (foldl (\<lambda>nl i. nl[i := nl ! i / d]) nl [0..<n]) = length nl
   \<and> (\<forall>i<length nl. foldl (\<lambda>nl i. nl[i := nl ! i / d]) nl [0..<n] ! i
        = (if i < n then nl ! i / d else nl ! i))"
proof (induction n)
  case 0
  show ?case by simp
next
  case (Suc n)
  then show ?case by (auto simp: nth_list_update less_Suc_eq)
qed

lemma finish_calibration_noise:
  assumes "window_ok w" "i < EMG_CHANNELS"
  shows "channel_noise_level (finish_calibration w) ! i = channel_noise_level w ! i / 450"
    and "window_ok (finish_calibration w)"
    and "baseline_initialized (finish_calibration w)"
    and "last_baseline_reset (finish_calibration w) = packet_count w"
    and "packet_count (finish_calibration w) = packet_count w"
    and "channel_current_state (finish_calibration w) = channel_current_state w"
  using assms divide_fold_nth [of EMG_CHANNELS "channel_noise_level w" 450]
  by (simp_all add: finish_calibration_def window_ok_def initialization_samples_def)

lemma steady_channel_fields:
  "channel_noise_level (fst (steady_channel s p)) = channel_noise_level (fst s)"
  "packet_count (fst (steady_channel s p)) = packet_count (fst s)"
  "baseline_initialized (fst (steady_channel s p)) = baseline_initialized (fst s)"
  by (cases s; cases p; simp add: steady_channel_def Let_def)+

lemma steady_fold_noise:
  "channel_noise_level (fst (foldl steady_channel s ps)) = channel_noise_level (fst s)
   \<and> packet_count (fst (foldl steady_channel s ps)) = packet_count (fst s)
   \<and> baseline_initialized (fst (foldl steady_channel s ps)) = baseline_initialized (fst s)"
proof (induction ps arbitrary: s)
  case Nil
  show ?case by simp
next
  case (Cons p ps)
  from Cons [of "steady_channel s p"] show ?case by (simp add: steady_channel_fields)
qed

lemma update_channel_indicator_fields:
  "channel_noise_level (update_channel_indicator w i a) = channel_noise_level w"
  "baseline_initialized (update_channel_indicator w i a) = baseline_initialized w"
  by (simp_all add: update_channel_indicator_def)

lemma update_fold_noise:
  "channel_noise_level (foldl (\<lambda>w p. case p of (i, activity) \<Rightarrow> update_channel_indicator w i activity) w ps)
     = channel_noise_level w
   \<and> baseline_initialized (foldl (\<lambda>w p. case p of (i, activity) \<Rightarrow> update_channel_indicator w i activity) w ps)
     = baseline_initialized w"
proof (induction ps arbitrary: w)
  case Nil
  show ?case by simp
next
  case (Cons p ps)
  obtain i a where p: "p = (i, a)" by (cases p)
  from Cons [of "update_channel_indicator w i a"] show ?case
    by (simp add: p update_channel_indicator_fields)
qed

lemma calibration_end:
  assumes ok: "window_ok w" and ni: "\<not> baseline_initialized w" and pc: "packet_count w = 500"
    and ls: "length s = EMG_CHANNELS" and i: "i < EMG_CHANNELS"
  shows "channel_noise_level (handle_emg_sample w s) ! i = channel_noise_level w ! i / 450
    \<and> baseline_initialized (handle_emg_sample w s)"
proof -
  let ?w1 = "w\<lparr>packet_count := 501\<rparr>"
  let ?w2 = "finish_calibration ?w1"
  have ok1: "window_ok ?w1" using ok by (simp add: window_ok_def)
  note fc = finish_calibration_noise [OF ok1 i]
  obtain w3 act where f: "foldl steady_channel (?w2, []) (enumerate 0 s) = (w3, act)"
    by (cases "foldl steady_channel (?w2, []) (enumerate 0 s)")
  from steady_fold_noise [of "(?w2, [])" "enumerate 0 s"] f
  have w3: "channel_noise_level w3 = channel_noise_level ?w2" "packet_count w3 = 501"
    "baseline_initialized w3"
    using fc by simp_all
  have h: "handle_emg_sample w s = w3"
    using ni pc ls fc f w3
    by (simp add: handle_emg_sample_def initialization_samples_def Let_def)
  show ?thesis using h w3 fc ni by simp
qed

lemma calibration_phase:
  assumes ok: "window_ok w" and ni: "\<not> baseline_initialized w" and pc: "packet_count w = 0"
    and len: "length samples = 501" and all: "\<forall>s\<in>set samples. length s = EMG_CHANNELS"
    and i: "i < EMG_CHANNELS"
  shows "channel_noise_level (foldl handle_emg_sample w samples) ! i
      = (channel_noise_level w ! i
         + spec_phase_activity 0 (channel_baseline w ! i) (channel_last_values w ! i)
             (map (\<lambda>s. s ! i) (take 500 samples))) / 450
    \<and> baseline_initialized (foldl handle_emg_sample w samples)"
proof -
  let ?first = "take 500 samples"
  let ?w1 = "foldl handle_emg_sample w ?first"
  have "drop 500 samples = samples ! 500 # drop (Suc 500) samples"
    using Cons_nth_drop_Suc [of 500 samples] len by simp
  then have "drop 500 samples = [samples ! 500]" using len by simp
  then have split: "samples = ?first @ [samples ! 500]"
    using append_take_drop_id [of 500 samples] by simp
  have lf: "length ?first = 500" using len by simp
  have allf: "\<forall>s\<in>set ?first. length s = EMG_CHANNELS" using all by (auto dest: in_set_takeD)
  have "packet_count w + int (length ?first) \<le> 500" using pc lf by simp
  from calibration_run [OF i ok ni this allf]
  have r: "window_ok ?w1" "\<not> baseline_initialized ?w1" "packet_count ?w1 = 500"
    "channel_noise_level ?w1 ! i
      = channel_noise_level w ! i
        + spec_phase_activity 0 (channel_baseline w ! i) (channel_last_values w ! i)
            (map (\<lambda>s. s ! i) ?first)"
    using pc lf by simp_all
  have "samples ! 500 \<in> set samples" using len by simp
  with all have ll: "length (samples ! 500) = EMG_CHANNELS" by blast
  have "foldl handle_emg_sample w samples = handle_emg_sample ?w1 (samples ! 500)"
    by (subst split) (simp only: foldl_append foldl.simps)
  with calibration_end [OF r(1,2,3) ll i] r(4) show ?thesis by simp
qed

lemma recalibration_trigger:
  assumes "baseline_initialized w" "packet_count w - last_baseline_reset w \<ge> 6000"
    "list_all (\<lambda>state. state = 0) (channel_current_state w)" "length s = EMG_CHANNELS"
  shows "handle_emg_sample w s = w\<lparr>baseline_initialized := False, packet_count := 0\<rparr>"
  using assms by (simp add: handle_emg_sample_def Let_def)

lemma window_ok_init: "window_ok MainWindow_init"
  by (simp add: window_ok_def MainWindow_init_def)

lemma initial_calibration_noise_floor:
  assumes "length samples = 501" "\<forall>s\<in>set samples. length s = EMG_CHANNELS" "i < EMG_CHANNELS"
  shows "channel_noise_level (foldl handle_emg_sample MainWindow_init samples) ! i
      = spec_phase_activity 0 0 0 (map (\<lambda>s. s ! i) (take 500 samples)) / 450"
proof -
  have a: "\<not> baseline_initialized MainWindow_init" "packet_count MainWindow_init = 0"
    by (simp_all add: MainWindow_init_def)
  have z: "channel_noise_level MainWindow_init ! i = 0" "channel_baseline MainWindow_init ! i = 0"
    "channel_last_values MainWindow_init ! i = 0"
    using assms(3) by (simp_all add: MainWindow_init_def)
  from calibration_phase [OF window_ok_init a assms] z show ?thesis by simp
qed

lemma spec_phase_activity_silent: "spec_phase_activity k 0 0 (replicate n 0) = 0"
  by (induction n arbitrary: k) simp_all

text \<open>
  C7. The claim holds for the initial phase (\<open>initial_calibration_noise_floor\<close>): the
  accumulators start at 0. A periodic recalibration resets the packet counter and the
  initialised flag but not \<open>channel_noise_level\<close>, so the activity of the new phase is added
  to the previous noise floor: for a window in steady state whose next sample triggers the
  recalibration, the noise floor after the 501 samples that follow is
  (previous noise floor + accumulated activity of the phase) / 450.
\<close>

theorem recalibration_keeps_previous_noise_floor:
  assumes "window_ok w" and "baseline_initialized w"
    and "packet_count w - last_baseline_reset w \<ge> 6000"
    and "list_all (\<lambda>state. state = 0) (channel_current_state w)"
    and "length trigger = EMG_CHANNELS"
    and "length samples = 501" and "\<forall>s\<in>set samples. length s = EMG_CHANNELS"
    and "i < EMG_CHANNELS"
  shows "channel_noise_level (foldl handle_emg_sample w (trigger # samples)) ! i
      = (channel_noise_level w ! i
         + spec_phase_activity 0 (channel_baseline w ! i) (channel_last_values w ! i)
             (map (\<lambda>s. s ! i) (take 500 samples))) / 450"
proof -
  let ?w0 = "w\<lparr>baseline_initialized := False, packet_count := 0\<rparr>"
  have t: "handle_emg_sample w trigger = ?w0"
    by (rule recalibration_trigger [OF assms(2,3,4,5)])
  have ok0: "window_ok ?w0" using assms(1) by (simp add: window_ok_def)
  have "\<not> baseline_initialized ?w0" "packet_count ?w0 = 0" by simp_all
  from calibration_phase [OF ok0 this assms(6,7,8)] t show ?thesis by simp
qed

theorem recalibration_keeps_previous_noise_floor_witness:
  "channel_noise_level
     (foldl handle_emg_sample
        \<lparr>packet_count = 6501, baseline_initialized = True, last_baseline_reset = 501,
         channel_baseline = replicate 8 0, channel_last_values = replicate 8 0,
         channel_current_state = replicate 8 0, channel_noise_level = replicate 8 450,
         channel_indicators = 8\<rparr>
        (replicate 8 0 # replicate 501 (replicate 8 0))) ! 0 = 1
   \<and> spec_phase_activity 0 0 0 (replicate 500 0) / 450 = 0"
proof -
  let ?w = "\<lparr>packet_count = 6501, baseline_initialized = True, last_baseline_reset = 501,
         channel_baseline = replicate 8 0, channel_last_values = replicate 8 0,
         channel_current_state = replicate 8 0, channel_noise_level = replicate 8 450,
         channel_indicators = 8\<rparr>"
  have ok: "window_ok ?w" by (simp add: window_ok_def EMG_CHANNELS_def)
  have idle: "list_all (\<lambda>state. state = 0) (channel_current_state ?w)"
    by (simp add: list_all_iff)
  have all: "\<forall>s\<in>set (replicate 501 (replicate 8 (0::real))). length s = EMG_CHANNELS"
    by (simp add: EMG_CHANNELS_def)
  have m: "map (\<lambda>s. s ! 0) (take 500 (replicate 501 (replicate 8 (0::real)))) = replicate 500 0"
    by simp
  from recalibration_keeps_previous_noise_floor [of ?w "replicate 8 0"
      "replicate 501 (replicate 8 0)" 0, OF ok _ _ idle _ _ all]
  have "channel_noise_level (foldl handle_emg_sample ?w
      (replicate 8 0 # replicate 501 (replicate 8 0))) ! 0
      = (450 + spec_phase_activity 0 0 0 (replicate 500 0)) / 450"
    unfolding m by (simp add: EMG_CHANNELS_def)
  then show ?thesis by (simp add: spec_phase_activity_silent)
qed

subsection \<open>Level transitions\<close>

lemma next_state_rise: "next_state noise cur strength \<le> cur + 1"
  by (auto simp: next_state_def thresholds_def Let_def)

lemma next_state_idle: "strength < 2 * max noise 100 \<Longrightarrow> next_state noise cur strength = 0"
  by (auto simp: next_state_def thresholds_def Let_def max_def split: if_splits)

lemma next_state_three: "strength = 3 * max noise 100 \<Longrightarrow> next_state noise cur strength = 1"
  by (auto simp: next_state_def thresholds_def Let_def max_def split: if_splits)

lemma next_state_active: "2 * max noise 100 \<le> strength \<Longrightarrow> next_state noise cur strength \<noteq> 0"
  by (auto simp: next_state_def thresholds_def Let_def max_def split: if_splits)

lemma next_state_two_only:
  "next_state noise cur strength = 2 \<Longrightarrow> 4 * max noise 100 \<le> strength"
  by (auto simp: next_state_def thresholds_def Let_def max_def split: if_splits)

lemma next_state_one_rises:
  "4 * max noise 100 \<le> strength \<Longrightarrow> next_state noise 1 strength = 2"
  by (auto simp: next_state_def thresholds_def Let_def max_def split: if_splits)

lemma update_channel_indicator_state:
  assumes "idx < channel_indicators w" "idx < length (channel_current_state w)"
  shows "channel_current_state (update_channel_indicator w idx strength) ! idx
    = next_state (channel_noise_level w ! idx) (channel_current_state w ! idx) strength"
  using assms by (simp add: update_channel_indicator_def)

lemma update_channel_indicator_keeps:
  "channel_noise_level (update_channel_indicator w idx strength) = channel_noise_level w"
  "channel_indicators (update_channel_indicator w idx strength) = channel_indicators w"
  "length (channel_current_state (update_channel_indicator w idx strength))
    = length (channel_current_state w)"
  by (simp_all add: update_channel_indicator_def)

lemma repeated_update_keeps:
  "channel_noise_level (((\<lambda>w. update_channel_indicator w idx strength) ^^ n) w) = channel_noise_level w
   \<and> channel_indicators (((\<lambda>w. update_channel_indicator w idx strength) ^^ n) w) = channel_indicators w
   \<and> length (channel_current_state (((\<lambda>w. update_channel_indicator w idx strength) ^^ n) w))
       = length (channel_current_state w)"
  by (induction n) (simp_all add: update_channel_indicator_keeps)

text \<open>
  C6. One quality update raises a channel's level by at most one step, whatever the
  current level and the deviation; and a deviation below 2 times the noise floor (indeed
  below 2 times the floor as the thresholds take it, at least 100) puts the level at 0 in
  that update, from any level.
\<close>

theorem quality_update_rises_one_step:
  assumes "idx < channel_indicators w" and "idx < length (channel_current_state w)"
  shows "channel_current_state (update_channel_indicator w idx strength) ! idx
      \<le> channel_current_state w ! idx + 1
    \<and> (strength < 2 * channel_noise_level w ! idx
        \<longrightarrow> channel_current_state (update_channel_indicator w idx strength) ! idx = 0)
    \<and> (strength < 2 * max (channel_noise_level w ! idx) 100
        \<longrightarrow> channel_current_state (update_channel_indicator w idx strength) ! idx = 0)"
proof -
  have "strength < 2 * channel_noise_level w ! idx
      \<Longrightarrow> strength < 2 * max (channel_noise_level w ! idx) 100"
    by simp
  then show ?thesis
    unfolding update_channel_indicator_state [OF assms]
    using next_state_rise next_state_idle by blast
qed

theorem quality_update_rises_one_step_witness:
  "channel_current_state
     (update_channel_indicator (MainWindow_init\<lparr>channel_noise_level := replicate 8 100\<rparr>) 0 5000) ! 0 = 1
   \<and> channel_current_state
       (update_channel_indicator
          (MainWindow_init\<lparr>channel_noise_level := replicate 8 100,
             channel_current_state := replicate 8 4\<rparr>) 0 199) ! 0 = 0"
proof -
  let ?w = "MainWindow_init\<lparr>channel_noise_level := replicate 8 100\<rparr>"
  let ?v = "MainWindow_init\<lparr>channel_noise_level := replicate 8 100,
             channel_current_state := replicate 8 4\<rparr>"
  have a: "0 < channel_indicators ?w" "0 < length (channel_current_state ?w)"
    "0 < channel_indicators ?v" "0 < length (channel_current_state ?v)"
    by (simp_all add: MainWindow_init_def EMG_CHANNELS_def)
  have "channel_current_state (update_channel_indicator ?w 0 5000) ! 0 \<le> 1"
    using quality_update_rises_one_step [OF a(1,2), of 5000]
    by (simp add: MainWindow_init_def EMG_CHANNELS_def)
  moreover have "channel_current_state (update_channel_indicator ?w 0 5000) ! 0 \<noteq> 0"
    by (simp add: update_channel_indicator_def MainWindow_init_def EMG_CHANNELS_def
        next_state_def thresholds_def)
  moreover have "channel_current_state (update_channel_indicator ?v 0 199) ! 0 = 0"
    using quality_update_rises_one_step [OF a(3,4), of 199]
    by (simp add: MainWindow_init_def EMG_CHANNELS_def)
  ultimately show ?thesis by simp
qed

text \<open>
  C1, as the code has it. With the deviation at exactly 3 times the noise floor (the floor
  taken at its minimum of 100 when calibrated lower, as the thresholds take it) on every
  quality update, the channel is at level 1 after the first update and after every later
  one, from any starting level. No update puts the channel at level 0 while the deviation
  is at least 2 times that floor. An update puts the channel at level 2 only when the
  deviation is at least 4 times that floor, and from level 1 it does so then.
\<close>

theorem three_times_noise_floor_level_one:
  assumes "idx < channel_indicators w" and "idx < length (channel_current_state w)"
    and "0 < n" and "strength = 3 * max (channel_noise_level w ! idx) 100"
  shows "channel_current_state (((\<lambda>w. update_channel_indicator w idx strength) ^^ n) w) ! idx = 1
    \<and> (\<forall>s. 2 * max (channel_noise_level w ! idx) 100 \<le> s
          \<longrightarrow> channel_current_state (update_channel_indicator w idx s) ! idx \<noteq> 0)
    \<and> (\<forall>s. channel_current_state (update_channel_indicator w idx s) ! idx = 2
          \<longrightarrow> 4 * max (channel_noise_level w ! idx) 100 \<le> s)
    \<and> (\<forall>s. channel_current_state w ! idx = 1 \<and> 4 * max (channel_noise_level w ! idx) 100 \<le> s
          \<longrightarrow> channel_current_state (update_channel_indicator w idx s) ! idx = 2)"
proof -
  from assms(3) obtain k where n: "n = Suc k" by (cases n) auto
  let ?wk = "((\<lambda>w. update_channel_indicator w idx strength) ^^ k) w"
  have k: "idx < channel_indicators ?wk" "idx < length (channel_current_state ?wk)"
    "channel_noise_level ?wk = channel_noise_level w"
    using repeated_update_keeps [where idx = idx and strength = strength and n = k and w = w]
      assms(1,2) by simp_all
  have "channel_current_state (update_channel_indicator ?wk idx strength) ! idx = 1"
    unfolding update_channel_indicator_state [OF k(1,2)] k(3)
    by (rule next_state_three [OF assms(4)])
  then have first: "channel_current_state
      (((\<lambda>w. update_channel_indicator w idx strength) ^^ n) w) ! idx = 1"
    by (simp add: n)
  have active: "\<forall>s. 2 * max (channel_noise_level w ! idx) 100 \<le> s
          \<longrightarrow> channel_current_state (update_channel_indicator w idx s) ! idx \<noteq> 0"
    unfolding update_channel_indicator_state [OF assms(1,2)]
    using next_state_active by blast
  have two: "\<forall>s. channel_current_state (update_channel_indicator w idx s) ! idx = 2
          \<longrightarrow> 4 * max (channel_noise_level w ! idx) 100 \<le> s"
    unfolding update_channel_indicator_state [OF assms(1,2)]
    using next_state_two_only by blast
  have rise: "\<forall>s. channel_current_state w ! idx = 1
          \<and> 4 * max (channel_noise_level w ! idx) 100 \<le> s
          \<longrightarrow> channel_current_state (update_channel_indicator w idx s) ! idx = 2"
    unfolding update_channel_indicator_state [OF assms(1,2)]
    using next_state_one_rises by simp
  from first active two rise show ?thesis by blast
qed

theorem three_times_noise_floor_level_one_witness:
  "channel_current_state
     (((\<lambda>w. update_channel_indicator w 0 300) ^^ 3)
        (MainWindow_init\<lparr>baseline_initialized := True, channel_noise_level := replicate 8 100\<rparr>)) ! 0 = 1
   \<and> channel_current_state
       (((\<lambda>w. update_channel_indicator w 0 300) ^^ 2)
          (MainWindow_init\<lparr>baseline_initialized := True, channel_noise_level := replicate 8 50\<rparr>)) ! 0 = 1
   \<and> channel_current_state
       (update_channel_indicator
          (MainWindow_init\<lparr>baseline_initialized := True, channel_noise_level := replicate 8 100\<rparr>)
          0 200) ! 0 \<noteq> 0
   \<and> channel_current_state
       (update_channel_indicator
          (MainWindow_init\<lparr>baseline_initialized := True, channel_noise_level := replicate 8 50,
             channel_current_state := replicate 8 1\<rparr>)
          0 400) ! 0 = 2"
proof -
  let ?w = "MainWindow_init\<lparr>baseline_initialized := True, channel_noise_level := replicate 8 100\<rparr>"
  let ?v = "MainWindow_init\<lparr>baseline_initialized := True, channel_noise_level := replicate 8 50\<rparr>"
  let ?u = "MainWindow_init\<lparr>baseline_initialized := True, channel_noise_level := replicate 8 50,
             channel_current_state := replicate 8 1\<rparr>"
  have a: "0 < channel_indicators ?w" "0 < length (channel_current_state ?w)"
    and b: "0 < channel_indicators ?v" "0 < length (channel_current_state ?v)"
    and c: "0 < channel_indicators ?u" "0 < length (channel_current_state ?u)"
    by (simp_all add: MainWindow_init_def EMG_CHANNELS_def)
  have sw: "(300::real) = 3 * max (channel_noise_level ?w ! 0) 100"
    and sv: "(300::real) = 3 * max (channel_noise_level ?v ! 0) 100"
    and su: "(300::real) = 3 * max (channel_noise_level ?u ! 0) 100"
    by (simp_all add: MainWindow_init_def)
  have nw: "channel_noise_level ?w ! 0 = 100" and nu: "channel_noise_level ?u ! 0 = 50"
    and lu: "channel_current_state ?u ! 0 = 1"
    by simp_all
  from three_times_noise_floor_level_one [OF a _ sw, where n = 3] nw
  have p1: "channel_current_state (((\<lambda>w. update_channel_indicator w 0 300) ^^ 3) ?w) ! 0 = 1"
    and p3: "channel_current_state (update_channel_indicator ?w 0 200) ! 0 \<noteq> 0"
    by simp_all
  from three_times_noise_floor_level_one [OF b _ sv, where n = 2]
  have p2: "channel_current_state (((\<lambda>w. update_channel_indicator w 0 300) ^^ 2) ?v) ! 0 = 1"
    by simp
  from three_times_noise_floor_level_one [OF c _ su, where n = 1] nu lu
  have p4: "channel_current_state (update_channel_indicator ?u 0 400) ! 0 = 2"
    by simp
  from p1 p2 p3 p4 show ?thesis by blast
qed

text \<open>
  C1 as stated fails. With noise floor 100 and deviation 300 the channel goes from level 0
  to level 1 and stays there: it does not reach level 2. With a calibrated noise floor of
  50 and deviation 150, three times that floor, the channel does not even leave level 0,
  the thresholds being taken from the floor's minimum 100. And from level 1 a deviation of
  170, which is not below the level-1 falling threshold 150, puts the channel back at
  level 0: the decision compares with the rising thresholds only.
\<close>

theorem three_times_noise_floor_counterexample:
  "channel_current_state
     (update_channel_indicator
        (MainWindow_init\<lparr>baseline_initialized := True, channel_noise_level := replicate 8 100\<rparr>)
        0 300) ! 0 = 1
   \<and> channel_current_state
       (update_channel_indicator
          (update_channel_indicator
             (MainWindow_init\<lparr>baseline_initialized := True, channel_noise_level := replicate 8 100\<rparr>)
             0 300) 0 300) ! 0 = 1
   \<and> channel_current_state
       (update_channel_indicator
          (MainWindow_init\<lparr>baseline_initialized := True, channel_noise_level := replicate 8 50\<rparr>)
          0 150) ! 0 = 0
   \<and> fst (thresholds 100 1) = 150
   \<and> channel_current_state
       (update_channel_indicator
          (update_channel_indicator
             (MainWindow_init\<lparr>baseline_initialized := True, channel_noise_level := replicate 8 100\<rparr>)
             0 300) 0 170) ! 0 = 0"
  by (simp add: update_channel_indicator_def MainWindow_init_def EMG_CHANNELS_def
      next_state_def thresholds_def)

end
